theory Spec2Isabelle
  imports Main "HOL-Library.Word"
begin

section \<open>Data model of \<^verbatim>\<open>core/blockchain.go\<close>\<close>

text \<open>
  A \<^verbatim>\<open>[]byte\<close> (keys and values of the store, \<^verbatim>\<open>byteutils.Hash\<close>) is a list of
  8-bit characters, and \<^verbatim>\<open>Equals\<close> on hashes is equality of the bytes.

  Modelled from the spec: the type \<^verbatim>\<open>Block\<close> is declared outside this file. A block
  is identified by its hash and carries a parent hash, a height (\<^verbatim>\<open>uint64\<close>), the roots
  of its state and of its transactions, and its transactions; \<^verbatim>\<open>Hash()\<close>,
  \<^verbatim>\<open>ParentHash()\<close>, \<^verbatim>\<open>Height()\<close>, \<^verbatim>\<open>StateRoot()\<close> and \<^verbatim>\<open>TxsRoot()\<close> read these
  fields and panic on a nil block. The coinbase address is only printed by \<^verbatim>\<open>Dump\<close>
  and is left out. Blocks are never mutated by this module, so a \<^verbatim>\<open>*Block\<close> is
  modelled by its value and a nil pointer by \<open>None\<close>.
\<close>

type_synonym bytes = string

type_synonym Transaction = bytes

record Block =
  hash :: bytes
  parentHash :: bytes
  height :: "64 word"
  stateRoot :: bytes
  txsRoot :: bytes
  transactions :: "Transaction list"

text \<open>
  A Go panic ends the call; an \<^verbatim>\<open>error\<close> is an ordinary return value.
\<close>

datatype fault =
    NilDereference
  | DivideByZero
  | SliceBounds
  | MakeSliceLen
  | ParentMissing

datatype error =
    ErrKeyNotFound
  | ErrDecode
  | ErrAccountState
  | ErrTxsTrie
  | ErrEncode
  | ErrPut
  | ErrCannotLocate
  | ErrNotInCanonicalChain
  | ErrSyntax

datatype 'a exec = Panics fault | Returns 'a

subsection \<open>The durable store\<close>

text \<open>
  Modelled from the spec: \<^verbatim>\<open>storage.Storage\<close> is an interface declared outside this
  file, consumed as \<^verbatim>\<open>Get(key) ([]byte, error)\<close>, which fails when the store has no
  entry for the key, and \<^verbatim>\<open>Put(key, value) error\<close>. The model keeps the key-value
  content, counts the calls of \<^verbatim>\<open>Put\<close>, and lets the store decide for each call, by
  its number, whether the write fails; a failed write leaves the content as it was.
\<close>

record Storage =
  kv :: "bytes \<rightharpoonup> bytes"
  puts :: nat
  put_fails :: "nat \<Rightarrow> bool"

definition Get :: "Storage \<Rightarrow> bytes \<Rightarrow> error + bytes" where
  "Get s k = (case kv s k of None \<Rightarrow> Inl ErrKeyNotFound | Some v \<Rightarrow> Inr v)"

definition Put :: "Storage \<Rightarrow> bytes \<Rightarrow> bytes \<Rightarrow> error option \<times> Storage" where
  "Put s k v =
     (if put_fails s (puts s)
      then (Some ErrPut, s\<lparr>puts := Suc (puts s)\<rparr>)
      else (None, s\<lparr>kv := (kv s)(k \<mapsto> v), puts := Suc (puts s)\<rparr>))"

subsection \<open>The bounded caches\<close>

text \<open>
  \<^verbatim>\<open>lru.Cache\<close> (hashicorp/golang-lru) keeps its entries in recency order, the most
  recent first. \<^verbatim>\<open>Get\<close> moves the entry it finds to the front, \<^verbatim>\<open>ContainsOrAdd\<close>
  looks without touching the order and adds in front when the key is absent, dropping the
  oldest entry when the capacity is exceeded, \<^verbatim>\<open>Remove\<close> deletes the key.
\<close>

record Cache =
  capacity :: nat
  entries :: "(string \<times> Block) list"

definition lru_New :: "nat \<Rightarrow> Cache" where
  "lru_New n = \<lparr>capacity = n, entries = []\<rparr>"

definition lru_Get :: "Cache \<Rightarrow> string \<Rightarrow> Block option \<times> Cache" where
  "lru_Get c k =
     (case map_of (entries c) k of
        None \<Rightarrow> (None, c)
      | Some v \<Rightarrow> (Some v, c\<lparr>entries := (k, v) # filter (\<lambda>e. fst e \<noteq> k) (entries c)\<rparr>))"

definition lru_ContainsOrAdd :: "Cache \<Rightarrow> string \<Rightarrow> Block \<Rightarrow> Cache" where
  "lru_ContainsOrAdd c k v =
     (if k \<in> fst ` set (entries c) then c
      else c\<lparr>entries := take (capacity c) ((k, v) # entries c)\<rparr>)"

definition lru_Remove :: "Cache \<Rightarrow> string \<Rightarrow> Cache" where
  "lru_Remove c k = c\<lparr>entries := filter (\<lambda>e. fst e \<noteq> k) (entries c)\<rparr>"

definition lru_Keys :: "Cache \<Rightarrow> string list" where
  "lru_Keys c = rev (map fst (entries c))"

subsection \<open>Telemetry\<close>

text \<open>
  The four package-level metrics. A gauge holds the last \<^verbatim>\<open>int64\<close> it was updated
  with, the meter the number of events marked.
\<close>

record Metrics =
  blockHeightGauge :: "64 word"
  blocktailHashGauge :: "64 word"
  blockRevertTimesGauge :: "64 word"
  blockRevertMeter :: nat

subsection \<open>The chain state\<close>

text \<open>
  \<^verbatim>\<open>BlockChain\<close> with the fields this module reads or writes. The transaction pool
  is seen through the transactions pushed back to it, in order; the metrics are global
  variables of the package and are carried with the state. The block pool and the
  consensus handler are only stored and handed out, and are left out, and so are
  \<^verbatim>\<open>NewBlock\<close>, \<^verbatim>\<open>GetTransaction\<close> and \<^verbatim>\<open>Dump\<close>, which change nothing of the
  state.
\<close>

record BlockChain =
  chainID :: "32 word"
  genesisBlock :: "Block option"
  tailBlock :: "Block option"
  txPool :: "Transaction list"
  cachedBlocks :: Cache
  detachedTailBlocks :: Cache
  storage :: Storage
  metrics :: Metrics

subsection \<open>Collaborators outside the module\<close>

text \<open>
  Modelled from the spec: block serialisation (\<^verbatim>\<open>ToProto\<close> then \<^verbatim>\<open>proto.Marshal\<close>,
  \<open>None\<close> when either reports an error), deserialisation (\<^verbatim>\<open>proto.Unmarshal\<close> then
  \<^verbatim>\<open>FromProto\<close>), the binding of a loaded block to its account state and transaction
  trie (\<^verbatim>\<open>state.NewAccountState\<close>, \<^verbatim>\<open>trie.NewBatchTrie\<close>, which read the store and
  may fail), the well-known genesis hash and the constructor of the genesis block are
  consumed as interfaces and are parameters of the model. So is the bound of the Go
  runtime on the bytes of one allocation, \<^verbatim>\<open>maxAlloc\<close> (\<open>2 ^ 48\<close> on 64-bit Linux,
  less where memory is short).
\<close>

record Extern =
  GenesisHash :: bytes
  NewGenesisBlock :: "32 word \<Rightarrow> Block"
  encode :: "Block \<Rightarrow> bytes option"
  decode :: "bytes \<Rightarrow> Block option"
  NewAccountState :: "bytes \<Rightarrow> (bytes \<rightharpoonup> bytes) \<Rightarrow> bool"
  NewBatchTrie :: "bytes \<Rightarrow> (bytes \<rightharpoonup> bytes) \<Rightarrow> bool"
  maxAlloc :: nat

text \<open>
  Modelled from the spec: \<^verbatim>\<open>CheckGenesisBlock\<close> is not part of this file; the genesis
  block is the block entry at the well-known hash constant, and a nil block is not it.
\<close>

definition CheckGenesisBlock :: "Extern \<Rightarrow> Block option \<Rightarrow> bool" where
  "CheckGenesisBlock E b = (case b of None \<Rightarrow> False | Some x \<Rightarrow> hash x = GenesisHash E)"

text \<open>
  Modelled from the spec: \<^verbatim>\<open>Block.ReturnTransactions\<close> re-admits the transactions of a
  reverted block to the transaction pool, one push for each transaction.
\<close>

definition ReturnTransactions :: "BlockChain \<Rightarrow> Block \<Rightarrow> BlockChain" where
  "ReturnTransactions bc b = bc\<lparr>txPool := txPool bc @ transactions b\<rparr>"

text \<open>
  Modelled from the spec: \<^verbatim>\<open>byteutils.Hex\<close> is not part of this file. The caches are
  keyed by the hash of a block and the head fingerprint is read from the end of a hash, so
  it is the lower-case hexadecimal encoding of the bytes, two digits for each byte.
\<close>

definition hexdigit :: "nat \<Rightarrow> char" where
  "hexdigit d = ''0123456789abcdef'' ! (d mod 16)"

definition Hex :: "bytes \<Rightarrow> string" where
  "Hex bs = concat (map (\<lambda>c. [hexdigit (of_char c div 16), hexdigit (of_char c mod 16)]) bs)"

definition Tail :: bytes where
  "Tail = ''blockchain_tail''"


section \<open>Persistence and retrieval\<close>

definition storeBlockToStorage :: "Extern \<Rightarrow> BlockChain \<Rightarrow> Block \<Rightarrow> error option \<times> BlockChain" where
  "storeBlockToStorage E bc block =
     (case encode E block of
        None \<Rightarrow> (Some ErrEncode, bc)
      | Some val \<Rightarrow>
          (case Put (storage bc) (hash block) val of
             (err, s) \<Rightarrow> (err, bc\<lparr>storage := s\<rparr>)))"

text \<open>
  \<^verbatim>\<open>LoadBlockFromStorage\<close>: every error of the source is a branch. The pool and store
  handles it binds to the loaded block are not part of the block's value.
\<close>

definition LoadBlockFromStorage :: "Extern \<Rightarrow> Storage \<Rightarrow> bytes \<Rightarrow> error + Block" where
  "LoadBlockFromStorage E s h =
     (case Get s h of
        Inl err \<Rightarrow> Inl err
      | Inr val \<Rightarrow>
          (case decode E val of
             None \<Rightarrow> Inl ErrDecode
           | Some block \<Rightarrow>
               if \<not> NewAccountState E (stateRoot block) (kv s) then Inl ErrAccountState
               else if \<not> NewBatchTrie E (txsRoot block) (kv s) then Inl ErrTxsTrie
               else Inr block))"

text \<open>\<^verbatim>\<open>storeTailToStorage\<close> drops the error \<^verbatim>\<open>Put\<close> returns.\<close>

definition storeTailToStorage :: "BlockChain \<Rightarrow> Block \<Rightarrow> BlockChain" where
  "storeTailToStorage bc block = bc\<lparr>storage := snd (Put (storage bc) Tail (hash block))\<rparr>"

definition loadGenesisFromStorage :: "Extern \<Rightarrow> BlockChain \<Rightarrow> Block \<times> BlockChain" where
  "loadGenesisFromStorage E bc =
     (case LoadBlockFromStorage E (storage bc) (GenesisHash E) of
        Inr genesis \<Rightarrow> (genesis, bc)
      | Inl err \<Rightarrow>
          (let genesis = NewGenesisBlock E (chainID bc)
           in (genesis, snd (storeBlockToStorage E bc genesis))))"

definition loadTailFromStorage :: "Extern \<Rightarrow> BlockChain \<Rightarrow> (error + Block) \<times> BlockChain" where
  "loadTailFromStorage E bc =
     (case Get (storage bc) Tail of
        Inl err \<Rightarrow>
          (case loadGenesisFromStorage E bc of
             (genesis, bc1) \<Rightarrow> (Inr genesis, storeTailToStorage bc1 genesis))
      | Inr h \<Rightarrow> (LoadBlockFromStorage E (storage bc) h, bc))"

definition NewBlockChain :: "Extern \<Rightarrow> 32 word \<Rightarrow> Storage \<Rightarrow> Metrics \<Rightarrow> error + BlockChain" where
  "NewBlockChain E cid s m =
     (let bc = \<lparr>chainID = cid, genesisBlock = None, tailBlock = None, txPool = [],
                cachedBlocks = lru_New 1024, detachedTailBlocks = lru_New 64,
                storage = s, metrics = m\<rparr>
      in case loadGenesisFromStorage E bc of
           (genesis, bc1) \<Rightarrow>
             (case loadTailFromStorage E (bc1\<lparr>genesisBlock := Some genesis\<rparr>) of
                (Inl err, bc2) \<Rightarrow> Inl err
              | (Inr tail, bc2) \<Rightarrow> Inr (bc2\<lparr>tailBlock := Some tail\<rparr>)))"

definition GetBlock :: "Extern \<Rightarrow> BlockChain \<Rightarrow> bytes \<Rightarrow> Block option \<times> BlockChain" where
  "GetBlock E bc h =
     (case lru_Get (cachedBlocks bc) (Hex h) of
        (None, c) \<Rightarrow>
          (case LoadBlockFromStorage E (storage bc) h of
             Inl err \<Rightarrow> (None, bc\<lparr>cachedBlocks := c\<rparr>)
           | Inr block \<Rightarrow> (Some block, bc\<lparr>cachedBlocks := c\<rparr>))
      | (Some block, c) \<Rightarrow> (Some block, bc\<lparr>cachedBlocks := c\<rparr>))"

section \<open>Admission\<close>

text \<open>
  The two loops of \<^verbatim>\<open>PutVerifiedNewBlocks\<close>; the first returns at the first error.
  The blocks of the two lists are not nil.
\<close>

fun put_all_blocks :: "Extern \<Rightarrow> BlockChain \<Rightarrow> Block list \<Rightarrow> error option \<times> BlockChain" where
  "put_all_blocks E bc [] = (None, bc)"
| "put_all_blocks E bc (v # vs) =
     (case storeBlockToStorage E
             (bc\<lparr>cachedBlocks := lru_ContainsOrAdd (cachedBlocks bc) (Hex (hash v)) v\<rparr>) v of
        (Some err, bc1) \<Rightarrow> (Some err, bc1)
      | (None, bc1) \<Rightarrow> put_all_blocks E bc1 vs)"

fun put_tail_blocks :: "BlockChain \<Rightarrow> Block list \<Rightarrow> BlockChain" where
  "put_tail_blocks bc [] = bc"
| "put_tail_blocks bc (v # vs) =
     put_tail_blocks
       (bc\<lparr>detachedTailBlocks := lru_ContainsOrAdd (detachedTailBlocks bc) (Hex (hash v)) v\<rparr>) vs"

definition PutVerifiedNewBlocks ::
  "Extern \<Rightarrow> BlockChain \<Rightarrow> Block list \<Rightarrow> Block list \<Rightarrow> error option \<times> BlockChain" where
  "PutVerifiedNewBlocks E bc allBlocks tailBlocks =
     (case put_all_blocks E bc allBlocks of
        (Some err, bc1) \<Rightarrow> (Some err, bc1)
      | (None, bc1) \<Rightarrow> (None, put_tail_blocks bc1 tailBlocks))"

text \<open>
  \<^verbatim>\<open>DetachedTailBlocks\<close> reads every key of the detached-tip cache, oldest first, with
  \<^verbatim>\<open>Get\<close>, which moves the entry to the front.
\<close>

fun detached_collect :: "Cache \<Rightarrow> string list \<Rightarrow> Block list \<Rightarrow> Block list \<times> Cache" where
  "detached_collect c [] ret = (ret, c)"
| "detached_collect c (k # ks) ret =
     (case lru_Get c k of
        (None, c') \<Rightarrow> detached_collect c' ks ret
      | (Some block, c') \<Rightarrow> detached_collect c' ks (ret @ [block]))"

definition DetachedTailBlocks :: "BlockChain \<Rightarrow> Block list \<times> BlockChain" where
  "DetachedTailBlocks bc =
     (case detached_collect (detachedTailBlocks bc) (lru_Keys (detachedTailBlocks bc)) [] of
        (ret, c) \<Rightarrow> (ret, bc\<lparr>detachedTailBlocks := c\<rparr>))"

section \<open>Common ancestor and tail switch\<close>

text \<open>
  The three loops of \<^verbatim>\<open>FindCommonAncestorWithTail\<close>. A loop that may run forever
  returns \<open>None\<close>. \<^verbatim>\<open>Height()\<close> and \<^verbatim>\<open>Hash()\<close> of a nil block panic; only the third
  loop checks for nil itself.
\<close>

partial_function (option) walk_tail ::
  "Extern \<Rightarrow> BlockChain \<Rightarrow> Block option \<Rightarrow> Block \<Rightarrow> (Block \<times> BlockChain) exec option" where
  "walk_tail E bc tail target =
     (case tail of
        None \<Rightarrow> Some (Panics NilDereference)
      | Some t \<Rightarrow>
          if height target < height t
          then (case GetBlock E bc (parentHash t) of (tail', bc') \<Rightarrow> walk_tail E bc' tail' target)
          else Some (Returns (t, bc)))"

partial_function (option) walk_target ::
  "Extern \<Rightarrow> BlockChain \<Rightarrow> Block option \<Rightarrow> Block \<Rightarrow> (Block \<times> BlockChain) exec option" where
  "walk_target E bc target tail =
     (case target of
        None \<Rightarrow> Some (Panics NilDereference)
      | Some g \<Rightarrow>
          if height tail < height g
          then (case GetBlock E bc (parentHash g) of
                  (target', bc') \<Rightarrow> walk_target E bc' target' tail)
          else Some (Returns (g, bc)))"

partial_function (option) walk_both ::
  "Extern \<Rightarrow> BlockChain \<Rightarrow> Block \<Rightarrow> Block \<Rightarrow> (Block \<times> BlockChain) exec option" where
  "walk_both E bc tail target =
     (if hash tail \<noteq> hash target
      then (case GetBlock E bc (parentHash tail) of
              (tail', bc1) \<Rightarrow>
                (case GetBlock E bc1 (parentHash target) of
                   (target', bc2) \<Rightarrow>
                     (case tail' of
                        None \<Rightarrow> Some (Panics ParentMissing)
                      | Some t \<Rightarrow>
                          (case target' of
                             None \<Rightarrow> Some (Panics ParentMissing)
                           | Some g \<Rightarrow> walk_both E bc2 t g))))
      else Some (Returns (target, bc)))"

definition FindCommonAncestorWithTail ::
  "Extern \<Rightarrow> BlockChain \<Rightarrow> Block option \<Rightarrow> ((error + Block) \<times> BlockChain) exec option" where
  "FindCommonAncestorWithTail E bc block =
     (case block of
        None \<Rightarrow> Some (Panics NilDereference)
      | Some b \<Rightarrow>
          (case GetBlock E bc (hash b) of
             (target0, bc1) \<Rightarrow>
               (case (if target0 = None then GetBlock E bc1 (parentHash b) else (target0, bc1)) of
                  (None, bc2) \<Rightarrow> Some (Returns (Inl ErrCannotLocate, bc2))
                | (Some target, bc2) \<Rightarrow>
                    (case walk_tail E bc2 (tailBlock bc2) target of
                       None \<Rightarrow> None
                     | Some (Panics f) \<Rightarrow> Some (Panics f)
                     | Some (Returns (tail1, bc3)) \<Rightarrow>
                         (case walk_target E bc3 (Some target) tail1 of
                            None \<Rightarrow> None
                          | Some (Panics f) \<Rightarrow> Some (Panics f)
                          | Some (Returns (target1, bc4)) \<Rightarrow>
                              (case walk_both E bc4 tail1 target1 of
                                 None \<Rightarrow> None
                               | Some (Panics f) \<Rightarrow> Some (Panics f)
                               | Some (Returns (a, bc5)) \<Rightarrow> Some (Returns (Inr a, bc5))))))))"


text \<open>
  \<^verbatim>\<open>getAncestorHash\<close>: the loop runs \<^verbatim>\<open>number\<close> times (not at all when it is
  negative) and stays on the genesis block once it is there.
\<close>

fun ancestor_walk ::
  "Extern \<Rightarrow> BlockChain \<Rightarrow> Block option \<Rightarrow> nat \<Rightarrow> (Block option \<times> BlockChain) exec" where
  "ancestor_walk E bc block 0 = Returns (block, bc)"
| "ancestor_walk E bc block (Suc k) =
     (if \<not> CheckGenesisBlock E block
      then (case block of
              None \<Rightarrow> Panics NilDereference
            | Some b \<Rightarrow>
                (case GetBlock E bc (parentHash b) of
                   (block', bc') \<Rightarrow> ancestor_walk E bc' block' k))
      else ancestor_walk E bc block k)"

definition getAncestorHash :: "Extern \<Rightarrow> BlockChain \<Rightarrow> int \<Rightarrow> (bytes \<times> BlockChain) exec" where
  "getAncestorHash E bc number =
     (case ancestor_walk E bc (tailBlock bc) (nat number) of
        Panics f \<Rightarrow> Panics f
      | Returns (None, bc') \<Rightarrow> Panics NilDereference
      | Returns (Some b, bc') \<Rightarrow> Returns (hash b, bc'))"

text \<open>
  \<^verbatim>\<open>strconv.ParseInt(s, 16, 32)\<close>: an optional sign, then at least one hexadecimal
  digit, and a value that fits 32 signed bits.
\<close>

definition hexval :: "char \<Rightarrow> int option" where
  "hexval c =
     (let n = (of_char c :: int)
      in if 48 \<le> n \<and> n \<le> 57 then Some (n - 48)
         else if 97 \<le> n \<and> n \<le> 102 then Some (n - 87)
         else if 65 \<le> n \<and> n \<le> 70 then Some (n - 55)
         else None)"

fun parse_digits :: "int \<Rightarrow> string \<Rightarrow> int option" where
  "parse_digits acc [] = Some acc"
| "parse_digits acc (c # cs) =
     (case hexval c of None \<Rightarrow> None | Some d \<Rightarrow> parse_digits (acc * 16 + d) cs)"

definition ParseInt_16_32 :: "string \<Rightarrow> error + int" where
  "ParseInt_16_32 s =
     (case s of
        [] \<Rightarrow> Inl ErrSyntax
      | c # cs \<Rightarrow>
          (let neg = (c = CHR ''-''); ds = (if c = CHR ''+'' \<or> c = CHR ''-'' then cs else s)
           in if ds = [] then Inl ErrSyntax
              else (case parse_digits 0 ds of
                      None \<Rightarrow> Inl ErrSyntax
                    | Some n \<Rightarrow>
                        if neg then (if n \<le> 2 ^ 31 then Inr (- n) else Inl ErrSyntax)
                        else (if n < 2 ^ 31 then Inr n else Inl ErrSyntax))))"

text \<open>
  \<^verbatim>\<open>hashToInt64\<close> parses the last four characters of the string; the slice expression
  panics on a shorter string. It is only called on the output of \<^verbatim>\<open>Hex\<close>, where
  runes and bytes are the same.
\<close>

definition hashToInt64 :: "string \<Rightarrow> (error + 64 word) exec" where
  "hashToInt64 h =
     (if length h < 4 then Panics SliceBounds
      else (case ParseInt_16_32 (drop (length h - 4) h) of
              Inl err \<Rightarrow> Returns (Inl err)
            | Inr s \<Rightarrow> Returns (Inr (word_of_int s))))"

text \<open>
  The loop of \<^verbatim>\<open>SetTailBlock\<close> that walks from the old tail back to the ancestor. The
  counter \<^verbatim>\<open>revertTimes\<close> is an \<^verbatim>\<open>int64\<close>.
\<close>

partial_function (option) revert_walk ::
  "Extern \<Rightarrow> BlockChain \<Rightarrow> Block \<Rightarrow> Block \<Rightarrow> 64 word \<Rightarrow> (64 word \<times> BlockChain) exec option" where
  "revert_walk E bc reverted ancestor revertTimes =
     (if hash reverted \<noteq> hash ancestor
      then (case GetBlock E (ReturnTransactions bc reverted) (parentHash reverted) of
              (None, bc') \<Rightarrow> Some (Panics ParentMissing)
            | (Some r, bc') \<Rightarrow> revert_walk E bc' r ancestor (revertTimes + 1))
      else Some (Returns (revertTimes, bc)))"

text \<open>
  The first three statements of \<^verbatim>\<open>SetTailBlock\<close>: the new tail leaves the detached
  tips, becomes the tail in memory, and is written to the store.
\<close>

definition promote :: "BlockChain \<Rightarrow> Block \<Rightarrow> BlockChain" where
  "promote bc newTail =
     storeTailToStorage
       (bc\<lparr>detachedTailBlocks := lru_Remove (detachedTailBlocks bc) (Hex (hash newTail)),
           tailBlock := Some newTail\<rparr>)
       newTail"

definition SetTailBlock :: "Extern \<Rightarrow> BlockChain \<Rightarrow> Block option \<Rightarrow> BlockChain exec option" where
  "SetTailBlock E bc newTail =
     (case newTail of
        None \<Rightarrow> Some (Panics NilDereference)
      | Some nt \<Rightarrow>
          (let oldTail = tailBlock bc
           in case FindCommonAncestorWithTail E (promote bc nt) oldTail of
                None \<Rightarrow> None
              | Some (Panics f) \<Rightarrow> Some (Panics f)
              | Some (Returns (Inl err, bc1)) \<Rightarrow> Some (Panics NilDereference)
              | Some (Returns (Inr ancestor, bc1)) \<Rightarrow>
                  (case oldTail of
                     None \<Rightarrow> Some (Panics NilDereference)
                   | Some ot \<Rightarrow>
                       if hash ancestor = hash ot
                       then (let bc2 = bc1\<lparr>metrics := (metrics bc1)\<lparr>blockHeightGauge := height nt\<rparr>\<rparr>
                             in case getAncestorHash E bc2 6 of
                                  Panics f \<Rightarrow> Some (Panics f)
                                | Returns (h, bc3) \<Rightarrow>
                                    (case hashToInt64 (Hex h) of
                                       Panics f \<Rightarrow> Some (Panics f)
                                     | Returns (Inl err) \<Rightarrow> Some (Returns bc3)
                                     | Returns (Inr v) \<Rightarrow>
                                         Some (Returns (bc3\<lparr>metrics :=
                                           (metrics bc3)\<lparr>blocktailHashGauge := v\<rparr>\<rparr>))))
                       else (case revert_walk E bc1 ot ancestor 0 of
                               None \<Rightarrow> None
                             | Some (Panics f) \<Rightarrow> Some (Panics f)
                             | Some (Returns (revertTimes, bc2)) \<Rightarrow>
                                 if 0 <s revertTimes
                                 then Some (Returns (bc2\<lparr>metrics := (metrics bc2)
                                        \<lparr>blockRevertTimesGauge := revertTimes,
                                         blockRevertMeter := blockRevertMeter (metrics bc2) + 1\<rparr>\<rparr>))
                                 else Some (Returns bc2)))))"

section \<open>Traversal\<close>

text \<open>
  \<^verbatim>\<open>FetchDescendantInCanonicalChain\<close>: the first loop walks from the tail towards the
  block and writes each block it passes into a ring of \<^verbatim>\<open>n\<close> slots; the second loop
  reads the ring backwards from the slot written last. \<^verbatim>\<open>%\<close> panics when \<^verbatim>\<open>n\<close> is
  zero; where it is evaluated its left operand is never negative, so that it is \<open>mod\<close>.

  The window \<^verbatim>\<open>n\<close> is an \<^verbatim>\<open>int\<close>, of 64 bits, read as a signed number.
  \<^verbatim>\<open>make([]*Block, n)\<close> panics in \<^verbatim>\<open>makeslice\<close> when the length is negative, when the
  size of the slice, eight bytes for each pointer, overflows the 64 bits of a
  \<^verbatim>\<open>uintptr\<close>, and when it is more than the runtime allocates. Past \<^verbatim>\<open>make\<close> the
  window is below \<open>2 ^ 61\<close> and the index stays between \<open>- 1\<close> and \<open>n - 1\<close>, so that
  neither \<^verbatim>\<open>curIdx + 1\<close> nor \<^verbatim>\<open>curIdx + n - 1\<close> leaves the range of \<^verbatim>\<open>int\<close>; the
  loops compute on the integer value of the window.
\<close>

definition makeslice_panics :: "Extern \<Rightarrow> int \<Rightarrow> bool" where
  "makeslice_panics E len \<longleftrightarrow> len < 0 \<or> 2 ^ 64 \<le> 8 * len \<or> int (maxAlloc E) < 8 * len"

partial_function (option) fetch_walk ::
  "Extern \<Rightarrow> BlockChain \<Rightarrow> int \<Rightarrow> Block option \<Rightarrow> Block option \<Rightarrow> int \<Rightarrow> Block option list \<Rightarrow>
     ((error + int \<times> Block option list) \<times> BlockChain) exec option" where
  "fetch_walk E bc n block curBlock curIdx queue =
     (case curBlock of
        None \<Rightarrow> Some (Returns (Inr (curIdx, queue), bc))
      | Some cur \<Rightarrow>
          (case block of
             None \<Rightarrow> Some (Panics NilDereference)
           | Some b \<Rightarrow>
               if hash cur = hash b then Some (Returns (Inr (curIdx, queue), bc))
               else if CheckGenesisBlock E curBlock
               then Some (Returns (Inl ErrNotInCanonicalChain, bc))
               else if n = 0 then Some (Panics DivideByZero)
               else (case GetBlock E bc (parentHash cur) of
                       (curBlock', bc') \<Rightarrow>
                         fetch_walk E bc' n block curBlock' ((curIdx + 1) mod n)
                           (queue[nat ((curIdx + 1) mod n) := curBlock]))))"

fun collect :: "int \<Rightarrow> Block option list \<Rightarrow> nat \<Rightarrow> int \<Rightarrow> Block list \<Rightarrow> Block list" where
  "collect n queue 0 curIdx res = res"
| "collect n queue (Suc k) curIdx res =
     (if 0 \<le> curIdx
      then collect n queue k ((curIdx + n - 1) mod n)
             (case queue ! nat curIdx of None \<Rightarrow> res | Some b \<Rightarrow> res @ [b])
      else res)"

definition FetchDescendantInCanonicalChain ::
  "Extern \<Rightarrow> BlockChain \<Rightarrow> 64 word \<Rightarrow> Block option \<Rightarrow>
     ((error + Block list) \<times> BlockChain) exec option" where
  "FetchDescendantInCanonicalChain E bc n block =
     (if makeslice_panics E (sint n) then Some (Panics MakeSliceLen)
      else (case fetch_walk E bc (sint n) block (tailBlock bc) (- 1)
                   (replicate (nat (sint n)) None) of
              None \<Rightarrow> None
            | Some (Panics f) \<Rightarrow> Some (Panics f)
            | Some (Returns (Inl err, bc')) \<Rightarrow> Some (Returns (Inl err, bc'))
            | Some (Returns (Inr (curIdx, queue), bc')) \<Rightarrow>
                Some (Returns
                  (Inr (collect (sint n) queue (nat (sint n)) curIdx []), bc'))))"


section \<open>The chain as the operations see it\<close>

text \<open>
  What \<^verbatim>\<open>GetBlock\<close> answers for a hash, and a list of blocks, child first, in which
  the parent hash of each block resolves to the next one.
\<close>

definition lookup :: "Extern \<Rightarrow> BlockChain \<Rightarrow> bytes \<Rightarrow> Block option" where
  "lookup E bc h = fst (GetBlock E bc h)"

fun linked :: "(bytes \<Rightarrow> Block option) \<Rightarrow> Block list \<Rightarrow> bool" where
  "linked look (x # y # ys) = (look (parentHash x) = Some y \<and> linked look (y # ys))"
| "linked look xs = True"

text \<open>
  Heights along such a list: the height of a child is the height of its parent plus one,
  without wrapping around.
\<close>

fun consecutive :: "Block list \<Rightarrow> bool" where
  "consecutive (x # y # ys) =
     (height x = height y + 1 \<and> height y < height x \<and> consecutive (y # ys))"
| "consecutive xs = True"

text \<open>Two states that differ at most in the recency order of the block cache.\<close>

definition recency_only :: "BlockChain \<Rightarrow> BlockChain \<Rightarrow> bool" where
  "recency_only bc bc' \<longleftrightarrow>
     bc' = bc\<lparr>cachedBlocks := cachedBlocks bc'\<rparr> \<and>
     capacity (cachedBlocks bc') = capacity (cachedBlocks bc) \<and>
     map_of (entries (cachedBlocks bc')) = map_of (entries (cachedBlocks bc))"

text \<open>The invariant of the detached tips: the current tail is not one of them.\<close>

definition tail_not_detached :: "BlockChain \<Rightarrow> bool" where
  "tail_not_detached bc =
     (case tailBlock bc of
        None \<Rightarrow> True
      | Some t \<Rightarrow> Hex (hash t) \<notin> fst ` set (entries (detachedTailBlocks bc)))"

text \<open>
  The blocks reached from a block by following parent links that resolve, and the chains
  whose heights go down along every resolved parent link, from the tail and from every block
  \<^verbatim>\<open>GetBlock\<close> answers.
\<close>

inductive reaches :: "(bytes \<Rightarrow> Block option) \<Rightarrow> Block \<Rightarrow> Block \<Rightarrow> bool"
  for look :: "bytes \<Rightarrow> Block option"
where
  here: "reaches look x x"
| up: "reaches look x y \<Longrightarrow> look (parentHash y) = Some z \<Longrightarrow> reaches look x z"

definition heights_descend :: "Extern \<Rightarrow> BlockChain \<Rightarrow> bool" where
  "heights_descend E bc \<longleftrightarrow>
     (\<forall>h x p. lookup E bc h = Some x \<or> tailBlock bc = Some x \<longrightarrow>
        lookup E bc (parentHash x) = Some p \<longrightarrow> height p < height x)"

text \<open>
  The ring of \<^verbatim>\<open>FetchDescendantInCanonicalChain\<close> after the blocks of a list were
  written to it one after the other: the index written last and the slots.
\<close>

fun ring_fill :: "int \<Rightarrow> Block list \<Rightarrow> int \<Rightarrow> Block option list \<Rightarrow> int \<times> Block option list" where
  "ring_fill n [] curIdx queue = (curIdx, queue)"
| "ring_fill n (v # vs) curIdx queue =
     ring_fill n vs ((curIdx + 1) mod n) (queue[nat ((curIdx + 1) mod n) := Some v])"

text \<open>
  What the ring holds when \<open>ws\<close> are the blocks written so far, the last written first:
  going back \<open>j\<close> slots from the index written last finds the block written \<open>j\<close>
  writes ago, and an empty slot when fewer blocks were written.
\<close>

definition ring_inv :: "int \<Rightarrow> Block list \<Rightarrow> int \<Rightarrow> Block option list \<Rightarrow> bool" where
  "ring_inv n ws curIdx queue \<longleftrightarrow>
     length queue = nat n \<and> - 1 \<le> curIdx \<and> curIdx < n \<and> (ws \<noteq> [] \<longrightarrow> 0 \<le> curIdx) \<and>
     (\<forall>j. 0 \<le> j \<and> j < n \<longrightarrow>
        queue ! nat ((curIdx - j) mod n) = (if nat j < length ws then Some (ws ! nat j) else None))"

section \<open>A small chain\<close>

text \<open>
  Genesis \<open>g0\<close> at height 0, the branch \<open>a1\<close>, \<open>b2\<close> and the competing branch
  \<open>c1\<close>, \<open>d2\<close>, with a serialisation that is good for these five blocks.
\<close>

definition ex_block :: "bytes \<Rightarrow> bytes \<Rightarrow> 64 word \<Rightarrow> Transaction list \<Rightarrow> Block" where
  "ex_block h p n txs =
     \<lparr>hash = h, parentHash = p, height = n, stateRoot = [], txsRoot = [], transactions = txs\<rparr>"

definition blkG :: Block where "blkG = ex_block ''g0'' ''--'' 0 []"
definition blkA :: Block where "blkA = ex_block ''a1'' ''g0'' 1 [''ta'']"
definition blkB :: Block where "blkB = ex_block ''b2'' ''a1'' 2 [''tb'', ''tb2'']"
definition blkC :: Block where "blkC = ex_block ''c1'' ''g0'' 1 [''tc'']"
definition blkD :: Block where "blkD = ex_block ''d2'' ''c1'' 2 [''td'']"

definition ex_encode :: "Block \<Rightarrow> bytes" where
  "ex_encode b = ''blk:'' @ hash b"

definition ex_extern :: Extern where
  "ex_extern =
     \<lparr>GenesisHash = ''g0'',
      NewGenesisBlock = (\<lambda>cid. blkG),
      encode = (\<lambda>b. Some (ex_encode b)),
      decode = (\<lambda>v. find (\<lambda>b. ex_encode b = v) [blkG, blkA, blkB, blkC, blkD]),
      NewAccountState = (\<lambda>root m. True),
      NewBatchTrie = (\<lambda>root m. True),
      maxAlloc = 281474976710656\<rparr>"

definition ex_metrics :: Metrics where
  "ex_metrics = \<lparr>blockHeightGauge = 0, blocktailHashGauge = 0,
                 blockRevertTimesGauge = 0, blockRevertMeter = 0\<rparr>"

definition ex_kv :: "bytes \<rightharpoonup> bytes" where
  "ex_kv = [''g0'' \<mapsto> ex_encode blkG, ''a1'' \<mapsto> ex_encode blkA, ''b2'' \<mapsto> ex_encode blkB,
            ''c1'' \<mapsto> ex_encode blkC, ''d2'' \<mapsto> ex_encode blkD, Tail \<mapsto> ''b2'']"

text \<open>
  The chain with \<open>b2\<close> as its tail; \<open>c1\<close> and \<open>d2\<close> were admitted last and are in the
  block cache, \<open>d2\<close> is a detached tip. The store takes every write.
\<close>

definition ex_chain :: BlockChain where
  "ex_chain =
     \<lparr>chainID = 100, genesisBlock = Some blkG, tailBlock = Some blkB, txPool = [],
      cachedBlocks = \<lparr>capacity = 1024, entries = [(Hex ''d2'', blkD), (Hex ''c1'', blkC)]\<rparr>,
      detachedTailBlocks = \<lparr>capacity = 64, entries = [(Hex ''d2'', blkD)]\<rparr>,
      storage = \<lparr>kv = ex_kv, puts = 6, put_fails = (\<lambda>i. False)\<rparr>,
      metrics = ex_metrics\<rparr>"

text \<open>The same chain on a store that refuses every write.\<close>

definition ex_chain_readonly :: BlockChain where
  "ex_chain_readonly = ex_chain\<lparr>storage := (storage ex_chain)\<lparr>put_fails := (\<lambda>i. True)\<rparr>\<rparr>"

text \<open>The same chain after the store lost the entry of \<open>a1\<close>.\<close>

definition ex_chain_broken :: BlockChain where
  "ex_chain_broken = ex_chain\<lparr>storage := (storage ex_chain)\<lparr>kv := ex_kv(''a1'' := None)\<rparr>\<rparr>"

text \<open>A chain state over an empty store, as \<^verbatim>\<open>NewBlockChain\<close> sets it up before loading.\<close>

definition ex_blank :: BlockChain where
  "ex_blank =
     \<lparr>chainID = 100, genesisBlock = None, tailBlock = None, txPool = [],
      cachedBlocks = lru_New 1024, detachedTailBlocks = lru_New 64,
      storage = \<lparr>kv = Map.empty, puts = 0, put_fails = (\<lambda>i. False)\<rparr>,
      metrics = ex_metrics\<rparr>"

text \<open>A fresh chain: genesis is stored and is the tail. Its store fails the second write.\<close>

definition ex_fresh :: BlockChain where
  "ex_fresh =
     \<lparr>chainID = 100, genesisBlock = Some blkG, tailBlock = Some blkG, txPool = [],
      cachedBlocks = lru_New 1024, detachedTailBlocks = lru_New 64,
      storage = \<lparr>kv = [''g0'' \<mapsto> ex_encode blkG, Tail \<mapsto> ''g0''], puts = 0,
                 put_fails = (\<lambda>i. i = 1)\<rparr>,
      metrics = ex_metrics\<rparr>"

section \<open>Properties\<close>


subsection \<open>Evaluation of the small chain\<close>

lemma Hex_Nil [simp]: "Hex [] = []"
  by (simp add: Hex_def)

lemma Hex_Cons:
  "Hex (c # cs) = hexdigit (of_char c div 16) # hexdigit (of_char c mod 16) # Hex cs"
  by (simp add: Hex_def)

lemmas ex_blocks = blkG_def blkA_def blkB_def blkC_def blkD_def ex_block_def ex_encode_def

lemma ex_Hex:
  "Hex ''g0'' = ''6730''" "Hex ''a1'' = ''6131''" "Hex ''b2'' = ''6232''"
  "Hex ''c1'' = ''6331''" "Hex ''d2'' = ''6432''" "Hex ''zz'' = ''7a7a''"
  "Hex ''--'' = ''2d2d''"
  by (simp_all add: Hex_Cons hexdigit_def)

lemmas ex_load = LoadBlockFromStorage_def Get_def ex_kv_def Tail_def ex_extern_def

subsection \<open>Retrieval\<close>

lemma lru_Get_miss: "k \<notin> fst ` set (entries c) \<Longrightarrow> lru_Get c k = (None, c)"
  using map_of_eq_None_iff[of "entries c" k] by (simp add: lru_Get_def)

lemma GetBlock_detached [simp]:
  "detachedTailBlocks (snd (GetBlock E bc h)) = detachedTailBlocks bc"
  by (simp add: GetBlock_def split: prod.splits option.splits sum.splits)

lemma GetBlock_upd_detached:
  "fst (GetBlock E (bc\<lparr>detachedTailBlocks := d\<rparr>) h) = fst (GetBlock E bc h)"
  by (simp add: GetBlock_def split: prod.splits option.splits sum.splits)

text \<open>
  C7. For a hash with no entry in the block cache, \<^verbatim>\<open>GetBlock\<close> answers what the store
  loads, nil when the store has no loadable entry, and leaves the whole chain state as it
  was: a block loaded from the store is not put into the block cache. The answer does not
  depend on the detached tips, and the detached tips are not changed.
\<close>

theorem GetBlock_unknown_hash:
  assumes "Hex h \<notin> fst ` set (entries (cachedBlocks bc))"
  shows "GetBlock E bc h =
           (case LoadBlockFromStorage E (storage bc) h of Inl err \<Rightarrow> None | Inr b \<Rightarrow> Some b, bc)
         \<and> fst (GetBlock E (bc\<lparr>detachedTailBlocks := d\<rparr>) h) = fst (GetBlock E bc h)
         \<and> detachedTailBlocks (snd (GetBlock E bc h)) = detachedTailBlocks bc"
  using assms
  by (simp add: GetBlock_def lru_Get_miss split: prod.splits option.splits sum.splits)

theorem GetBlock_unknown_hash_witness:
  "Hex ''zz'' \<notin> fst ` set (entries (cachedBlocks ex_chain))
   \<and> LoadBlockFromStorage ex_extern (storage ex_chain) ''zz'' = Inl ErrKeyNotFound
   \<and> GetBlock ex_extern ex_chain ''zz'' = (None, ex_chain)
   \<and> Hex ''a1'' \<notin> fst ` set (entries (cachedBlocks ex_chain))
   \<and> GetBlock ex_extern ex_chain ''a1'' = (Some blkA, ex_chain)"
proof -
  have m1: "Hex ''zz'' \<notin> fst ` set (entries (cachedBlocks ex_chain))"
    by (simp add: ex_chain_def ex_Hex)
  have m2: "Hex ''a1'' \<notin> fst ` set (entries (cachedBlocks ex_chain))"
    by (simp add: ex_chain_def ex_Hex)
  have l1: "LoadBlockFromStorage ex_extern (storage ex_chain) ''zz'' = Inl ErrKeyNotFound"
    by (simp add: ex_chain_def ex_load)
  have l2: "LoadBlockFromStorage ex_extern (storage ex_chain) ''a1'' = Inr blkA"
    by (simp add: ex_chain_def ex_load ex_blocks)
  show ?thesis
    using m1 m2 l1 l2
      GetBlock_unknown_hash [OF m1, of ex_extern] GetBlock_unknown_hash [OF m2, of ex_extern]
    by simp
qed

subsection \<open>Admission\<close>

lemma put_all_blocks_append:
  "put_all_blocks E bc (xs @ ys) =
     (case put_all_blocks E bc xs of
        (Some e, bc1) \<Rightarrow> (Some e, bc1)
      | (None, bc1) \<Rightarrow> put_all_blocks E bc1 ys)"
  by (induction xs arbitrary: bc) (auto split: prod.splits option.splits)

lemma put_tail_blocks_storage [simp]: "storage (put_tail_blocks bc vs) = storage bc"
  by (induction vs arbitrary: bc) auto

lemma put_tail_blocks_tail [simp]: "tailBlock (put_tail_blocks bc vs) = tailBlock bc"
  by (induction vs arbitrary: bc) auto

lemma storeBlockToStorage_detached [simp]:
  "detachedTailBlocks (snd (storeBlockToStorage E bc v)) = detachedTailBlocks bc"
  by (simp add: storeBlockToStorage_def split: option.splits prod.splits)

lemma storeBlockToStorage_tail [simp]:
  "tailBlock (snd (storeBlockToStorage E bc v)) = tailBlock bc"
  by (simp add: storeBlockToStorage_def split: option.splits prod.splits)

lemma put_all_blocks_detached [simp]:
  "detachedTailBlocks (snd (put_all_blocks E bc vs)) = detachedTailBlocks bc"
proof (induction vs arbitrary: bc)
  case Nil
  show ?case by simp
next
  case (Cons v vs)
  let ?bc = "bc\<lparr>cachedBlocks := lru_ContainsOrAdd (cachedBlocks bc) (Hex (hash v)) v\<rparr>"
  have d: "detachedTailBlocks (snd (storeBlockToStorage E ?bc v)) = detachedTailBlocks bc"
    by simp
  show ?case
  proof (cases "storeBlockToStorage E ?bc v")
    case (Pair r bc1)
    with d Cons.IH[of bc1] show ?thesis by (cases r) auto
  qed
qed

lemma put_all_blocks_tail [simp]:
  "tailBlock (snd (put_all_blocks E bc vs)) = tailBlock bc"
proof (induction vs arbitrary: bc)
  case Nil
  show ?case by simp
next
  case (Cons v vs)
  let ?bc = "bc\<lparr>cachedBlocks := lru_ContainsOrAdd (cachedBlocks bc) (Hex (hash v)) v\<rparr>"
  have d: "tailBlock (snd (storeBlockToStorage E ?bc v)) = tailBlock bc"
    by simp
  show ?case
  proof (cases "storeBlockToStorage E ?bc v")
    case (Pair r bc1)
    with d Cons.IH[of bc1] show ?thesis by (cases r) auto
  qed
qed

lemma storeBlockToStorage_fail_kv:
  "storeBlockToStorage E bc v = (Some err, bc') \<Longrightarrow> kv (storage bc') = kv (storage bc)"
  by (auto simp: storeBlockToStorage_def Put_def split: option.splits if_splits)

text \<open>
  C5. When the blocks \<open>pre\<close> are admitted without error and persisting the next block
  \<open>v\<close> fails, \<^verbatim>\<open>PutVerifiedNewBlocks\<close> returns that error at \<open>v\<close>: the store holds what
  the admission of \<open>pre\<close> wrote and nothing of \<open>v\<close> or of the blocks after it, and no
  detached tip was inserted. For every batch, the store after the admission is the same
  whatever the list of detached tips is: inserting them writes nothing to the store.
\<close>

theorem PutVerifiedNewBlocks_aborts_at_failure:
  assumes pre: "PutVerifiedNewBlocks E bc pre [] = (None, bc1)"
      and fail: "storeBlockToStorage E
                   (bc1\<lparr>cachedBlocks := lru_ContainsOrAdd (cachedBlocks bc1) (Hex (hash v)) v\<rparr>) v
                 = (Some err, bc2)"
  shows "PutVerifiedNewBlocks E bc (pre @ v # post) tips = (Some err, bc2)
       \<and> kv (storage bc2) = kv (storage bc1)
       \<and> detachedTailBlocks bc2 = detachedTailBlocks bc
       \<and> storage (snd (PutVerifiedNewBlocks E bc blocks tips))
           = storage (snd (PutVerifiedNewBlocks E bc blocks []))"
proof -
  from pre have p: "put_all_blocks E bc pre = (None, bc1)"
    by (auto simp: PutVerifiedNewBlocks_def split: prod.splits option.splits)
  have 1: "PutVerifiedNewBlocks E bc (pre @ v # post) tips = (Some err, bc2)"
    using p fail by (simp add: PutVerifiedNewBlocks_def put_all_blocks_append)
  have 2: "kv (storage bc2) = kv (storage bc1)"
    using storeBlockToStorage_fail_kv[OF fail] by simp
  have "detachedTailBlocks (snd (put_all_blocks E bc (pre @ v # post))) = detachedTailBlocks bc"
    by (rule put_all_blocks_detached)
  then have 3: "detachedTailBlocks bc2 = detachedTailBlocks bc"
    using p fail by (simp add: put_all_blocks_append)
  have 4: "storage (snd (PutVerifiedNewBlocks E bc blocks tips))
           = storage (snd (PutVerifiedNewBlocks E bc blocks []))"
    by (simp add: PutVerifiedNewBlocks_def split: prod.splits option.splits)
  from 1 2 3 4 show ?thesis by simp
qed

theorem PutVerifiedNewBlocks_aborts_at_failure_witness:
  "fst (PutVerifiedNewBlocks ex_extern ex_fresh [blkC] []) = None
   \<and> fst (PutVerifiedNewBlocks ex_extern ex_fresh [blkC, blkD, blkA] [blkD]) = Some ErrPut
   \<and> kv (storage (snd (PutVerifiedNewBlocks ex_extern ex_fresh [blkC, blkD, blkA] [blkD])))
       = [''g0'' \<mapsto> ex_encode blkG, Tail \<mapsto> ''g0'', ''c1'' \<mapsto> ex_encode blkC]
   \<and> detachedTailBlocks (snd (PutVerifiedNewBlocks ex_extern ex_fresh [blkC, blkD, blkA] [blkD]))
       = detachedTailBlocks ex_fresh"
proof -
  let ?bc1 = "snd (PutVerifiedNewBlocks ex_extern ex_fresh [blkC] [])"
  let ?bc1' = "?bc1\<lparr>cachedBlocks := lru_ContainsOrAdd (cachedBlocks ?bc1) (Hex (hash blkD)) blkD\<rparr>"
  have f: "fst (PutVerifiedNewBlocks ex_extern ex_fresh [blkC] []) = None"
    by (simp add: PutVerifiedNewBlocks_def storeBlockToStorage_def Put_def ex_fresh_def
        ex_extern_def)
  then have pre: "PutVerifiedNewBlocks ex_extern ex_fresh [blkC] [] = (None, ?bc1)"
    by (metis prod.collapse)
  have "fst (storeBlockToStorage ex_extern ?bc1' blkD) = Some ErrPut"
    by (simp add: PutVerifiedNewBlocks_def storeBlockToStorage_def Put_def ex_fresh_def
        ex_extern_def)
  then have fail: "storeBlockToStorage ex_extern ?bc1' blkD
                   = (Some ErrPut, snd (storeBlockToStorage ex_extern ?bc1' blkD))"
    by (metis prod.collapse)
  have k: "kv (storage ?bc1) = [''g0'' \<mapsto> ex_encode blkG, Tail \<mapsto> ''g0'', ''c1'' \<mapsto> ex_encode blkC]"
    by (simp add: PutVerifiedNewBlocks_def storeBlockToStorage_def Put_def ex_fresh_def
        ex_extern_def ex_blocks)
  show ?thesis
    using f k PutVerifiedNewBlocks_aborts_at_failure [OF pre fail, of "[blkA]" "[blkD]" "[]"]
    by simp
qed

subsection \<open>Loading the tail\<close>




subsection \<open>A window of no slots\<close>

text \<open>
  C10, as the code has it. With a window of \<^verbatim>\<open>n = 0\<close>, a block that is not the current
  tail, and a current tail that is not the genesis block,
  \<^verbatim>\<open>FetchDescendantInCanonicalChain\<close> panics on the division by zero in the first round
  of its loop.
\<close>

theorem FetchDescendant_zero_window_panics:
  assumes "tailBlock bc = Some t" and "hash t \<noteq> hash b" and "hash t \<noteq> GenesisHash E"
  shows "FetchDescendantInCanonicalChain E bc 0 (Some b) = Some (Panics DivideByZero)"
  using assms
  by (simp add: FetchDescendantInCanonicalChain_def makeslice_panics_def fetch_walk.simps
      CheckGenesisBlock_def)

theorem FetchDescendant_zero_window_panics_witness:
  "tailBlock ex_chain = Some blkB \<and> hash blkB \<noteq> hash blkG \<and> hash blkB \<noteq> GenesisHash ex_extern
   \<and> FetchDescendantInCanonicalChain ex_extern ex_chain 0 (Some blkG) = Some (Panics DivideByZero)"
proof -
  have h1: "tailBlock ex_chain = Some blkB"
    by (simp add: ex_chain_def)
  have h2: "hash blkB \<noteq> hash blkG"
    by (simp add: ex_blocks)
  have h3: "hash blkB \<noteq> GenesisHash ex_extern"
    by (simp add: ex_blocks ex_extern_def)
  show ?thesis
    using h1 h2 h3 FetchDescendant_zero_window_panics [OF h1 h2 h3] by simp
qed

text \<open>
  C10 as stated fails on a fresh chain, whose tail is the genesis block: for a block that
  is not the tail the call with \<^verbatim>\<open>n = 0\<close> returns the error of a block that is not on
  the canonical chain, and does not panic.
\<close>

theorem FetchDescendant_zero_window_genesis_tail:
  "tailBlock ex_fresh = Some blkG \<and> hash blkA \<noteq> hash blkG
   \<and> FetchDescendantInCanonicalChain ex_extern ex_fresh 0 (Some blkA)
       = Some (Returns (Inl ErrNotInCanonicalChain, ex_fresh))"
  by (simp add: FetchDescendantInCanonicalChain_def makeslice_panics_def fetch_walk.simps
      CheckGenesisBlock_def ex_fresh_def ex_extern_def ex_blocks)


subsection \<open>What the walks leave unchanged\<close>

text \<open>
  \<^verbatim>\<open>GetBlock\<close> changes at most the recency order of the block cache, and so do the
  loops that only call \<^verbatim>\<open>GetBlock\<close>; what \<^verbatim>\<open>GetBlock\<close> answers is not affected.
\<close>

lemma map_of_filter_other:
  "x \<noteq> k \<Longrightarrow> map_of (filter (\<lambda>e. fst e \<noteq> k) es) x = map_of es x"
  by (induction es) auto

lemma lru_Get_map_of:
  "map_of (entries (snd (lru_Get c k))) = map_of (entries c)"
proof (cases "map_of (entries c) k")
  case None
  then show ?thesis by (simp add: lru_Get_def)
next
  case (Some v)
  have "map_of ((k, v) # filter (\<lambda>e. fst e \<noteq> k) (entries c)) x = map_of (entries c) x" for x
    using Some by (cases "x = k") (simp_all add: map_of_filter_other)
  then show ?thesis using Some by (auto simp: lru_Get_def)
qed

lemma lru_Get_fst: "fst (lru_Get c k) = map_of (entries c) k"
  by (simp add: lru_Get_def split: option.splits)

lemma lru_Get_capacity: "capacity (snd (lru_Get c k)) = capacity c"
  by (simp add: lru_Get_def split: option.splits)

lemma recency_only_refl [simp]: "recency_only bc bc"
  by (simp add: recency_only_def)

lemma recency_only_trans: "recency_only a b \<Longrightarrow> recency_only b c \<Longrightarrow> recency_only a c"
  unfolding recency_only_def
  by (metis BlockChain.surjective BlockChain.update_convs(5))

lemma GetBlock_recency: "recency_only bc (snd (GetBlock E bc h))"
  using lru_Get_map_of[of "cachedBlocks bc" "Hex h"] lru_Get_capacity[of "cachedBlocks bc" "Hex h"]
  by (auto simp: GetBlock_def recency_only_def split: prod.splits option.splits sum.splits)

lemma lookup_eq:
  "lookup E bc h =
     (case map_of (entries (cachedBlocks bc)) (Hex h) of
        Some b \<Rightarrow> Some b
      | None \<Rightarrow> (case LoadBlockFromStorage E (storage bc) h of Inl e \<Rightarrow> None | Inr b \<Rightarrow> Some b))"
  using lru_Get_fst[of "cachedBlocks bc" "Hex h"]
  by (auto simp: lookup_def GetBlock_def split: prod.splits option.splits sum.splits)

lemma recency_only_fields:
  assumes "recency_only bc bc'"
  shows "tailBlock bc' = tailBlock bc" "detachedTailBlocks bc' = detachedTailBlocks bc"
    "storage bc' = storage bc" "metrics bc' = metrics bc" "txPool bc' = txPool bc"
    "genesisBlock bc' = genesisBlock bc" "chainID bc' = chainID bc"
proof -
  from assms have e: "bc' = bc\<lparr>cachedBlocks := cachedBlocks bc'\<rparr>"
    by (simp add: recency_only_def)
  show "tailBlock bc' = tailBlock bc" by (subst e) simp
  show "detachedTailBlocks bc' = detachedTailBlocks bc" by (subst e) simp
  show "storage bc' = storage bc" by (subst e) simp
  show "metrics bc' = metrics bc" by (subst e) simp
  show "txPool bc' = txPool bc" by (subst e) simp
  show "genesisBlock bc' = genesisBlock bc" by (subst e) simp
  show "chainID bc' = chainID bc" by (subst e) simp
qed

lemma recency_only_lookup:
  assumes "recency_only bc bc'" shows "lookup E bc' = lookup E bc"
proof
  fix h
  have s: "storage bc' = storage bc"
    by (rule recency_only_fields(3)[OF assms])
  from assms have m: "map_of (entries (cachedBlocks bc')) = map_of (entries (cachedBlocks bc))"
    by (simp add: recency_only_def)
  show "lookup E bc' h = lookup E bc h"
    by (simp only: lookup_eq s m)
qed

lemma GetBlock_eq: "GetBlock E bc h = (lookup E bc h, snd (GetBlock E bc h))"
  by (simp add: lookup_def)

lemma walk_tail_frame:
  assumes "walk_tail E bc t g = Some r"
  shows "case r of Panics f \<Rightarrow> True | Returns (y, bc') \<Rightarrow> recency_only bc bc'"
proof (rule walk_tail.raw_induct
    [where P = "\<lambda>E bc t g r. case r of Panics f \<Rightarrow> True | Returns (y, bc') \<Rightarrow> recency_only bc bc'",
      OF _ assms])
  fix wt E bc tail target r
  assume IH: "\<And>E bc tail target r. wt E bc tail target = Some r \<Longrightarrow>
                (case r of Panics f \<Rightarrow> True | Returns (y, bc') \<Rightarrow> recency_only bc bc')"
    and body: "(case tail of
        None \<Rightarrow> Some (Panics NilDereference)
      | Some t \<Rightarrow>
          if height target < height t
          then (case GetBlock E bc (parentHash t) of (tail', bc') \<Rightarrow> wt E bc' tail' target)
          else Some (Returns (t, bc))) = Some r"
  show "case r of Panics f \<Rightarrow> True | Returns (y, bc') \<Rightarrow> recency_only bc bc'"
  proof (cases tail)
    case None
    with body show ?thesis by auto
  next
    case (Some t)
    show ?thesis
    proof (cases "height target < height t")
      case False
      with body Some show ?thesis by auto
    next
      case True
      obtain t' bc1 where g: "GetBlock E bc (parentHash t) = (t', bc1)"
        by (cases "GetBlock E bc (parentHash t)")
      have r1: "recency_only bc bc1" using GetBlock_recency[of bc E "parentHash t"] g by simp
      from body Some True g have "wt E bc1 t' target = Some r" by simp
      from IH[OF this] r1 show ?thesis
        by (cases r) (auto intro: recency_only_trans)
    qed
  qed
qed


lemma walk_target_frame:
  assumes "walk_target E bc g t = Some r"
  shows "case r of Panics f \<Rightarrow> True | Returns (y, bc') \<Rightarrow> recency_only bc bc'"
proof (rule walk_target.raw_induct
    [where P = "\<lambda>E bc g t r. case r of Panics f \<Rightarrow> True | Returns (y, bc') \<Rightarrow> recency_only bc bc'",
      OF _ assms])
  fix wt E bc target tail r
  assume IH: "\<And>E bc target tail r. wt E bc target tail = Some r \<Longrightarrow>
                (case r of Panics f \<Rightarrow> True | Returns (y, bc') \<Rightarrow> recency_only bc bc')"
    and body: "(case target of
        None \<Rightarrow> Some (Panics NilDereference)
      | Some g \<Rightarrow>
          if height tail < height g
          then (case GetBlock E bc (parentHash g) of (target', bc') \<Rightarrow> wt E bc' target' tail)
          else Some (Returns (g, bc))) = Some r"
  show "case r of Panics f \<Rightarrow> True | Returns (y, bc') \<Rightarrow> recency_only bc bc'"
  proof (cases target)
    case None
    with body show ?thesis by auto
  next
    case (Some g)
    show ?thesis
    proof (cases "height tail < height g")
      case False
      with body Some show ?thesis by auto
    next
      case True
      obtain g' bc1 where gb: "GetBlock E bc (parentHash g) = (g', bc1)"
        by (cases "GetBlock E bc (parentHash g)")
      have r1: "recency_only bc bc1" using GetBlock_recency[of bc E "parentHash g"] gb by simp
      from body Some True gb have "wt E bc1 g' tail = Some r" by simp
      from IH[OF this] r1 show ?thesis
        by (cases r) (auto intro: recency_only_trans)
    qed
  qed
qed

lemma walk_both_frame:
  assumes "walk_both E bc t g = Some r"
  shows "case r of Panics f \<Rightarrow> True | Returns (y, bc') \<Rightarrow> recency_only bc bc'"
proof (rule walk_both.raw_induct
    [where P = "\<lambda>E bc t g r. case r of Panics f \<Rightarrow> True | Returns (y, bc') \<Rightarrow> recency_only bc bc'",
      OF _ assms])
  fix wb E bc tail target r
  assume IH: "\<And>E bc tail target r. wb E bc tail target = Some r \<Longrightarrow>
                (case r of Panics f \<Rightarrow> True | Returns (y, bc') \<Rightarrow> recency_only bc bc')"
    and body: "(if hash tail \<noteq> hash target
      then (case GetBlock E bc (parentHash tail) of
              (tail', bc1) \<Rightarrow>
                (case GetBlock E bc1 (parentHash target) of
                   (target', bc2) \<Rightarrow>
                     (case tail' of
                        None \<Rightarrow> Some (Panics ParentMissing)
                      | Some t \<Rightarrow>
                          (case target' of
                             None \<Rightarrow> Some (Panics ParentMissing)
                           | Some g \<Rightarrow> wb E bc2 t g))))
      else Some (Returns (target, bc))) = Some r"
  show "case r of Panics f \<Rightarrow> True | Returns (y, bc') \<Rightarrow> recency_only bc bc'"
  proof (cases "hash tail \<noteq> hash target")
    case False
    with body show ?thesis by auto
  next
    case True
    obtain t' bc1 where g1: "GetBlock E bc (parentHash tail) = (t', bc1)"
      by (cases "GetBlock E bc (parentHash tail)")
    obtain g' bc2 where g2: "GetBlock E bc1 (parentHash target) = (g', bc2)"
      by (cases "GetBlock E bc1 (parentHash target)")
    have "recency_only bc bc1" using GetBlock_recency[of bc E "parentHash tail"] g1 by simp
    moreover have "recency_only bc1 bc2"
      using GetBlock_recency[of bc1 E "parentHash target"] g2 by simp
    ultimately have r2: "recency_only bc bc2" by (rule recency_only_trans)
    show ?thesis
    proof (cases "t' = None \<or> g' = None")
      case True
      with body \<open>hash tail \<noteq> hash target\<close> g1 g2 have "r = Panics ParentMissing"
        by (auto split: option.splits)
      then show ?thesis by simp
    next
      case False
      then obtain t g where "t' = Some t" "g' = Some g" by auto
      with body True g1 g2 have "wb E bc2 t g = Some r" by simp
      from IH[OF this] r2 show ?thesis
        by (cases r) (auto intro: recency_only_trans)
    qed
  qed
qed

lemma FindCommonAncestorWithTail_frame:
  assumes "FindCommonAncestorWithTail E bc block = Some (Returns (r, bc'))"
  shows "recency_only bc bc'"
proof (cases block)
  case None
  with assms show ?thesis by (simp add: FindCommonAncestorWithTail_def)
next
  case (Some b)
  obtain t0 bc1 where g1: "GetBlock E bc (hash b) = (t0, bc1)"
    by (cases "GetBlock E bc (hash b)")
  obtain t1 bc2 where g2:
    "(if t0 = None then GetBlock E bc1 (parentHash b) else (t0, bc1)) = (t1, bc2)"
    by (cases "if t0 = None then GetBlock E bc1 (parentHash b) else (t0, bc1)")
  have r1: "recency_only bc bc1" using GetBlock_recency[of bc E "hash b"] g1 by simp
  have "recency_only bc1 bc2"
    using GetBlock_recency[of bc1 E "parentHash b"] g2 by (auto split: if_splits)
  with r1 have r2: "recency_only bc bc2" by (rule recency_only_trans)
  show ?thesis
  proof (cases t1)
    case None
    with assms Some g1 g2 show ?thesis
      using r2 by (simp add: FindCommonAncestorWithTail_def)
  next
    case (Some target)
    from assms \<open>block = Some b\<close> g1 g2 Some
    obtain tail1 bc3 target1 bc4 a where
      w1: "walk_tail E bc2 (tailBlock bc2) target = Some (Returns (tail1, bc3))" and
      w2: "walk_target E bc3 (Some target) tail1 = Some (Returns (target1, bc4))" and
      w3: "walk_both E bc4 tail1 target1 = Some (Returns (a, bc'))"
      by (auto simp: FindCommonAncestorWithTail_def split: option.splits exec.splits prod.splits)
    from walk_tail_frame[OF w1] have "recency_only bc2 bc3" by simp
    moreover from walk_target_frame[OF w2] have "recency_only bc3 bc4" by simp
    moreover from walk_both_frame[OF w3] have "recency_only bc4 bc'" by simp
    ultimately show ?thesis using r2 by (blast intro: recency_only_trans)
  qed
qed

lemma ancestor_walk_frame:
  "ancestor_walk E bc b k = Returns (r, bc') \<Longrightarrow> recency_only bc bc'"
proof (induction E bc b k rule: ancestor_walk.induct)
  case (1 E bc block)
  then show ?case by simp
next
  case (2 E bc block k)
  show ?case
  proof (cases "CheckGenesisBlock E block")
    case True
    with 2 show ?thesis by simp
  next
    case False
    with 2(3) obtain b where b: "block = Some b" by (cases block) auto
    obtain b' bc1 where g: "GetBlock E bc (parentHash b) = (b', bc1)"
      by (cases "GetBlock E bc (parentHash b)")
    have r1: "recency_only bc bc1" using GetBlock_recency[of bc E "parentHash b"] g by simp
    from 2(3) False b g have "ancestor_walk E bc1 b' k = Returns (r, bc')" by simp
    from 2(1)[OF False b g[symmetric] this] r1 show ?thesis
      by (rule recency_only_trans[rotated])
  qed
qed


lemma revert_walk_frame:
  assumes "revert_walk E bc x a c = Some r"
  shows "case r of Panics f \<Rightarrow> True
         | Returns (c', bc') \<Rightarrow> tailBlock bc' = tailBlock bc
             \<and> detachedTailBlocks bc' = detachedTailBlocks bc \<and> storage bc' = storage bc"
proof (rule revert_walk.raw_induct
    [where P = "\<lambda>E bc x a c r. case r of Panics f \<Rightarrow> True
         | Returns (c', bc') \<Rightarrow> tailBlock bc' = tailBlock bc
             \<and> detachedTailBlocks bc' = detachedTailBlocks bc \<and> storage bc' = storage bc",
      OF _ assms])
  fix rw E bc reverted ancestor revertTimes r
  assume IH: "\<And>E bc x a c r. rw E bc x a c = Some r \<Longrightarrow>
                (case r of Panics f \<Rightarrow> True
                 | Returns (c', bc') \<Rightarrow> tailBlock bc' = tailBlock bc
                     \<and> detachedTailBlocks bc' = detachedTailBlocks bc \<and> storage bc' = storage bc)"
    and body: "(if hash reverted \<noteq> hash ancestor
      then (case GetBlock E (ReturnTransactions bc reverted) (parentHash reverted) of
              (None, bc') \<Rightarrow> Some (Panics ParentMissing)
            | (Some r, bc') \<Rightarrow> rw E bc' r ancestor (revertTimes + 1))
      else Some (Returns (revertTimes, bc))) = Some r"
  show "case r of Panics f \<Rightarrow> True
         | Returns (c', bc') \<Rightarrow> tailBlock bc' = tailBlock bc
             \<and> detachedTailBlocks bc' = detachedTailBlocks bc \<and> storage bc' = storage bc"
  proof (cases "hash reverted \<noteq> hash ancestor")
    case False
    with body show ?thesis by auto
  next
    case True
    obtain p bc1 where g: "GetBlock E (ReturnTransactions bc reverted) (parentHash reverted) = (p, bc1)"
      by (cases "GetBlock E (ReturnTransactions bc reverted) (parentHash reverted)")
    have "recency_only (ReturnTransactions bc reverted) bc1"
      using GetBlock_recency[of "ReturnTransactions bc reverted" E "parentHash reverted"] g by simp
    from recency_only_fields(1,2,3)[OF this]
    have f1: "tailBlock bc1 = tailBlock bc" "detachedTailBlocks bc1 = detachedTailBlocks bc"
      "storage bc1 = storage bc"
      by (simp_all add: ReturnTransactions_def)
    show ?thesis
    proof (cases p)
      case None
      with body True g show ?thesis by auto
    next
      case (Some q)
      with body True g have "rw E bc1 q ancestor (revertTimes + 1) = Some r" by simp
      from IH[OF this] f1 show ?thesis by (cases r) auto
    qed
  qed
qed

lemma promote_fields [simp]:
  "tailBlock (promote bc nt) = Some nt"
  "detachedTailBlocks (promote bc nt) = lru_Remove (detachedTailBlocks bc) (Hex (hash nt))"
  "cachedBlocks (promote bc nt) = cachedBlocks bc"
  "txPool (promote bc nt) = txPool bc"
  "metrics (promote bc nt) = metrics bc"
  by (simp_all add: promote_def storeTailToStorage_def)

lemma SetTailBlock_frame:
  assumes "SetTailBlock E bc (Some nt) = Some (Returns bc')"
  shows "tailBlock bc' = Some nt
       \<and> detachedTailBlocks bc' = lru_Remove (detachedTailBlocks bc) (Hex (hash nt))
       \<and> storage bc' = storage (promote bc nt)"
proof -
  from assms obtain a bc1 ot where
    fca: "FindCommonAncestorWithTail E (promote bc nt) (tailBlock bc) = Some (Returns (Inr a, bc1))"
    and ot: "tailBlock bc = Some ot"
    by (auto simp: SetTailBlock_def Let_def split: option.splits exec.splits prod.splits sum.splits)
  have r1: "recency_only (promote bc nt) bc1"
    by (rule FindCommonAncestorWithTail_frame[OF fca])
  note f1 = recency_only_fields(1,2,3)[OF r1]
  show ?thesis
  proof (cases "hash a = hash ot")
    case True
    let ?bc2 = "bc1\<lparr>metrics := (metrics bc1)\<lparr>blockHeightGauge := height nt\<rparr>\<rparr>"
    from assms fca ot True obtain h bc3 where
      ga: "getAncestorHash E ?bc2 6 = Returns (h, bc3)" and
      fin: "bc' = bc3 \<or> (\<exists>v. bc' = bc3\<lparr>metrics := (metrics bc3)\<lparr>blocktailHashGauge := v\<rparr>\<rparr>)"
      by (auto simp: SetTailBlock_def Let_def split: option.splits exec.splits prod.splits sum.splits)
    from ga obtain b where "ancestor_walk E ?bc2 (tailBlock ?bc2) (nat 6) = Returns (Some b, bc3)"
      by (auto simp: getAncestorHash_def split: exec.splits prod.splits option.splits)
    from ancestor_walk_frame[OF this] have "recency_only ?bc2 bc3" .
    from recency_only_fields(1,2,3)[OF this] f1 fin show ?thesis by auto
  next
    case False
    from assms fca ot False obtain c bc2 where
      rw: "revert_walk E bc1 ot a 0 = Some (Returns (c, bc2))" and
      fin: "bc' = bc2 \<or> bc' = bc2\<lparr>metrics := (metrics bc2)
                                        \<lparr>blockRevertTimesGauge := c,
                                         blockRevertMeter := blockRevertMeter (metrics bc2) + 1\<rparr>\<rparr>"
      by (auto simp: SetTailBlock_def Let_def split: option.splits exec.splits prod.splits sum.splits if_splits)
    from revert_walk_frame[OF rw] f1 fin show ?thesis by auto
  qed
qed


subsection \<open>Walks along a resolved chain\<close>

text \<open>
  Along a list of blocks whose parent links all resolve, each loop of the common-ancestor
  search returns, and returns the block the list says.
\<close>

lemma linked_Cons:
  "ys \<noteq> [] \<Longrightarrow> linked look (x # ys) = (look (parentHash x) = Some (hd ys) \<and> linked look ys)"
  by (cases ys) auto

lemma linked_append_right: "linked look (xs @ ys) \<Longrightarrow> linked look ys"
proof (induction xs)
  case Nil
  then show ?case by simp
next
  case (Cons x xs)
  show ?case
  proof (cases "xs @ ys = []")
    case True
    then show ?thesis by simp
  next
    case False
    with Cons.prems have "linked look (xs @ ys)" by (simp add: linked_Cons)
    then show ?thesis by (rule Cons.IH)
  qed
qed

lemma consecutive_Cons:
  "ys \<noteq> [] \<Longrightarrow> consecutive (x # ys) =
     (height x = height (hd ys) + 1 \<and> height (hd ys) < height x \<and> consecutive ys)"
  by (cases ys) auto

lemma consecutive_append_right: "consecutive (xs @ ys) \<Longrightarrow> consecutive ys"
proof (induction xs)
  case Nil
  then show ?case by simp
next
  case (Cons x xs)
  show ?case
  proof (cases "xs @ ys = []")
    case True
    then show ?thesis by simp
  next
    case False
    with Cons.prems have "consecutive (xs @ ys)" by (simp add: consecutive_Cons)
    then show ?thesis by (rule Cons.IH)
  qed
qed

lemma consecutive_above:
  "consecutive (xs @ ys) \<Longrightarrow> ys \<noteq> [] \<Longrightarrow> \<forall>x\<in>set xs. height (hd ys) < height x"
proof (induction xs)
  case Nil
  then show ?case by simp
next
  case (Cons z zs)
  from Cons.prems(2) have ne: "zs @ ys \<noteq> []" by simp
  from Cons.prems(1) have c: "height (hd (zs @ ys)) < height z" "consecutive (zs @ ys)"
    unfolding append_Cons consecutive_Cons[OF ne] by blast+
  note IH = Cons.IH[OF c(2) Cons.prems(2)]
  have "height (hd ys) < height z"
  proof (cases zs)
    case Nil
    with c show ?thesis by simp
  next
    case (Cons w ws)
    with c have "height w < height z" by simp
    moreover from IH Cons have "height (hd ys) < height w" by simp
    ultimately show ?thesis by simp
  qed
  with IH show ?case by simp
qed

lemma consecutive_height:
  "consecutive (xs @ [F]) \<Longrightarrow> height (hd (xs @ [F])) = height F + of_nat (length xs)"
proof (induction xs)
  case Nil
  then show ?case by simp
next
  case (Cons x xs)
  from Cons.prems have "height x = height (hd (xs @ [F])) + 1" "consecutive (xs @ [F])"
    by (simp_all add: consecutive_Cons)
  with Cons.IH show ?case by simp
qed

lemma GetBlock_lookup:
  assumes "lookup E bc h = r"
  obtains bc1 where "GetBlock E bc h = (r, bc1)" and "recency_only bc bc1"
  using assms GetBlock_recency[of bc E h] by (cases "GetBlock E bc h") (auto simp: lookup_def)

lemma walk_tail_path:
  assumes "linked (lookup E bc) (xs @ [y])"
      and "\<forall>x\<in>set xs. height target < height x"
      and "\<not> height target < height y"
  shows "\<exists>bc'. walk_tail E bc (Some (hd (xs @ [y]))) target = Some (Returns (y, bc'))
           \<and> recency_only bc bc'"
  using assms
proof (induction xs arbitrary: bc)
  case Nil
  then show ?case by (subst walk_tail.simps) simp
next
  case (Cons x xs)
  from Cons.prems(1) have p: "lookup E bc (parentHash x) = Some (hd (xs @ [y]))"
    and l: "linked (lookup E bc) (xs @ [y])"
    by (simp_all add: linked_Cons)
  from p obtain bc1 where g: "GetBlock E bc (parentHash x) = (Some (hd (xs @ [y])), bc1)"
    and r1: "recency_only bc bc1" by (rule GetBlock_lookup)
  from l have "linked (lookup E bc1) (xs @ [y])"
    by (simp add: recency_only_lookup[OF r1])
  from Cons.IH[OF this] Cons.prems(2,3)
  obtain bc' where w: "walk_tail E bc1 (Some (hd (xs @ [y]))) target = Some (Returns (y, bc'))"
    and r2: "recency_only bc1 bc'" by auto
  have "walk_tail E bc (Some (hd ((x # xs) @ [y]))) target = Some (Returns (y, bc'))"
    using Cons.prems(2) g w by (subst walk_tail.simps) simp
  with recency_only_trans[OF r1 r2] show ?case by blast
qed

lemma walk_target_path:
  assumes "linked (lookup E bc) (xs @ [y])"
      and "\<forall>x\<in>set xs. height tail < height x"
      and "\<not> height tail < height y"
  shows "\<exists>bc'. walk_target E bc (Some (hd (xs @ [y]))) tail = Some (Returns (y, bc'))
           \<and> recency_only bc bc'"
  using assms
proof (induction xs arbitrary: bc)
  case Nil
  then show ?case by (subst walk_target.simps) simp
next
  case (Cons x xs)
  from Cons.prems(1) have p: "lookup E bc (parentHash x) = Some (hd (xs @ [y]))"
    and l: "linked (lookup E bc) (xs @ [y])"
    by (simp_all add: linked_Cons)
  from p obtain bc1 where g: "GetBlock E bc (parentHash x) = (Some (hd (xs @ [y])), bc1)"
    and r1: "recency_only bc bc1" by (rule GetBlock_lookup)
  from l have "linked (lookup E bc1) (xs @ [y])"
    by (simp add: recency_only_lookup[OF r1])
  from Cons.IH[OF this] Cons.prems(2,3)
  obtain bc' where w: "walk_target E bc1 (Some (hd (xs @ [y]))) tail = Some (Returns (y, bc'))"
    and r2: "recency_only bc1 bc'" by auto
  have "walk_target E bc (Some (hd ((x # xs) @ [y]))) tail = Some (Returns (y, bc'))"
    using Cons.prems(2) g w by (subst walk_target.simps) simp
  with recency_only_trans[OF r1 r2] show ?case by blast
qed

lemma walk_both_path:
  assumes "length xs = length ys"
      and "linked (lookup E bc) (xs @ [F])"
      and "linked (lookup E bc) (ys @ [F])"
      and "\<forall>x\<in>set xs. \<forall>y\<in>set ys. hash x \<noteq> hash y"
  shows "\<exists>bc'. walk_both E bc (hd (xs @ [F])) (hd (ys @ [F])) = Some (Returns (F, bc'))
           \<and> recency_only bc bc'"
  using assms
proof (induction xs ys arbitrary: bc rule: list_induct2)
  case Nil
  then show ?case by (subst walk_both.simps) simp
next
  case (Cons x xs y ys)
  from Cons.prems(1) have px: "lookup E bc (parentHash x) = Some (hd (xs @ [F]))"
    and lx: "linked (lookup E bc) (xs @ [F])"
    by (simp_all add: linked_Cons)
  from Cons.prems(2) have py: "lookup E bc (parentHash y) = Some (hd (ys @ [F]))"
    and ly: "linked (lookup E bc) (ys @ [F])"
    by (simp_all add: linked_Cons)
  from px obtain bc1 where g1: "GetBlock E bc (parentHash x) = (Some (hd (xs @ [F])), bc1)"
    and r1: "recency_only bc bc1" by (rule GetBlock_lookup)
  from py have "lookup E bc1 (parentHash y) = Some (hd (ys @ [F]))"
    by (simp add: recency_only_lookup[OF r1])
  then obtain bc2 where g2: "GetBlock E bc1 (parentHash y) = (Some (hd (ys @ [F])), bc2)"
    and r2: "recency_only bc1 bc2" by (rule GetBlock_lookup)
  note r12 = recency_only_trans[OF r1 r2]
  have "linked (lookup E bc2) (xs @ [F])" "linked (lookup E bc2) (ys @ [F])"
    using lx ly by (simp_all add: recency_only_lookup[OF r12])
  from Cons.IH[OF this] Cons.prems(3)
  obtain bc' where w: "walk_both E bc2 (hd (xs @ [F])) (hd (ys @ [F])) = Some (Returns (F, bc'))"
    and r3: "recency_only bc2 bc'" by auto
  from Cons.prems(3) have ne: "hash x \<noteq> hash y" by simp
  have "walk_both E bc (hd ((x # xs) @ [F])) (hd ((y # ys) @ [F])) = Some (Returns (F, bc'))"
    by (subst walk_both.simps) (simp add: ne g1 g2 w)
  with recency_only_trans[OF r12 r3] show ?case by blast
qed


lemma linked_append_left:
  "linked look (xs @ ys) \<Longrightarrow> ys \<noteq> [] \<Longrightarrow> linked look (xs @ [hd ys])"
proof (induction xs)
  case Nil
  then show ?case by simp
next
  case (Cons x xs)
  from Cons.prems have 1: "look (parentHash x) = Some (hd (xs @ ys))" "linked look (xs @ ys)"
    by (simp_all add: linked_Cons)
  have "hd (xs @ ys) = hd (xs @ [hd ys])" using Cons.prems(2) by (cases xs) auto
  with 1 Cons.IH[OF 1(2) Cons.prems(2)] show ?case by (simp add: linked_Cons)
qed

lemma hd_append_snoc: "ys \<noteq> [] \<Longrightarrow> hd (xs @ [hd ys]) = hd (xs @ ys)"
  by (cases xs) auto

lemma FindCommonAncestorWithTail_fork:
  assumes tail: "tailBlock bc = Some (hd (ns @ [F]))"
      and res: "lookup E bc (hash b) = Some (hd (os @ [F]))"
      and lN: "linked (lookup E bc) (ns @ [F])" and lO: "linked (lookup E bc) (os @ [F])"
      and cN: "consecutive (ns @ [F])" and cO: "consecutive (os @ [F])"
      and dis: "\<forall>x\<in>set ns. \<forall>y\<in>set os. hash x \<noteq> hash y"
  shows "\<exists>bc'. FindCommonAncestorWithTail E bc (Some b) = Some (Returns (Inr F, bc'))
           \<and> recency_only bc bc'"
proof -
  define k where "k = min (length ns) (length os)"
  define ns1 where "ns1 = take (length ns - k) ns"
  define ns2 where "ns2 = drop (length ns - k) ns"
  define os1 where "os1 = take (length os - k) os"
  define os2 where "os2 = drop (length os - k) os"
  define tn where "tn = hd (ns2 @ [F])"
  define tg where "tg = hd (os2 @ [F])"
  define target where "target = hd (os @ [F])"
  have nsp: "ns = ns1 @ ns2" and osp: "os = os1 @ os2" by (simp_all add: ns1_def ns2_def os1_def os2_def)
  have len: "length ns2 = length os2" by (auto simp: ns2_def os2_def k_def)
  have empty: "ns1 = [] \<or> os1 = []" by (auto simp: ns1_def os1_def k_def)
  have cN2: "consecutive (ns2 @ [F])" using cN consecutive_append_right[of ns1 "ns2 @ [F]"] nsp by simp
  have cO2: "consecutive (os2 @ [F])" using cO consecutive_append_right[of os1 "os2 @ [F]"] osp by simp
  have heq: "height tn = height tg"
    using consecutive_height[OF cN2] consecutive_height[OF cO2] len by (simp add: tn_def tg_def)
  have aN: "\<forall>x\<in>set ns1. height tn < height x"
    using consecutive_above[of ns1 "ns2 @ [F]"] cN nsp by (simp add: tn_def)
  have aO: "\<forall>x\<in>set os1. height tg < height x"
    using consecutive_above[of os1 "os2 @ [F]"] cO osp by (simp add: tg_def)
  have tgt: "target = hd (os1 @ [tg])"
    using hd_append_snoc[of "os2 @ [F]" os1] osp by (simp add: target_def tg_def)
  have tl: "hd (ns @ [F]) = hd (ns1 @ [tn])"
    using hd_append_snoc[of "ns2 @ [F]" ns1] nsp by (simp add: tn_def)
  have ht: "height target = height tg \<or> height tg < height target"
    using aO tgt by (cases os1) auto
  have w1a: "\<forall>x\<in>set ns1. height target < height x"
  proof (cases "ns1 = []")
    case True
    then show ?thesis by simp
  next
    case False
    with empty have "os1 = []" by simp
    with tgt aN heq show ?thesis by simp
  qed
  have w1b: "\<not> height target < height tn"
    using ht heq by auto
  have w2b: "\<not> height tn < height tg"
    using heq by simp
  have w2a: "\<forall>x\<in>set os1. height tn < height x"
    using aO heq by simp
  from res obtain bc1 where g0: "GetBlock E bc (hash b) = (Some target, bc1)"
    and r1: "recency_only bc bc1" unfolding target_def by (rule GetBlock_lookup)
  note look1 = recency_only_lookup[OF r1, of E]
  have t1: "tailBlock bc1 = Some (hd (ns1 @ [tn]))"
    using recency_only_fields(1)[OF r1] tail tl by simp
  have "linked (lookup E bc1) (ns1 @ [tn])"
    using linked_append_left[of "lookup E bc" ns1 "ns2 @ [F]"] lN nsp by (simp add: look1 tn_def)
  from walk_tail_path[OF this w1a w1b]
  obtain bc2 where wt: "walk_tail E bc1 (Some (hd (ns1 @ [tn]))) target = Some (Returns (tn, bc2))"
    and r2: "recency_only bc1 bc2" by blast
  note r12 = recency_only_trans[OF r1 r2]
  have "linked (lookup E bc2) (os1 @ [tg])"
    using linked_append_left[of "lookup E bc" os1 "os2 @ [F]"] lO osp
    by (simp add: recency_only_lookup[OF r12] tg_def)
  from walk_target_path[OF this w2a w2b]
  obtain bc3 where wg: "walk_target E bc2 (Some target) tn = Some (Returns (tg, bc3))"
    and r3: "recency_only bc2 bc3" unfolding tgt by blast
  note r13 = recency_only_trans[OF r12 r3]
  have l3: "linked (lookup E bc3) (ns2 @ [F])" "linked (lookup E bc3) (os2 @ [F])"
    using linked_append_right[of "lookup E bc" ns1 "ns2 @ [F]"]
      linked_append_right[of "lookup E bc" os1 "os2 @ [F]"] lN lO nsp osp
    by (simp_all add: recency_only_lookup[OF r13])
  have "\<forall>x\<in>set ns2. \<forall>y\<in>set os2. hash x \<noteq> hash y"
    using dis nsp osp by auto
  from walk_both_path[OF len l3 this]
  obtain bc4 where wb: "walk_both E bc3 tn tg = Some (Returns (F, bc4))"
    and r4: "recency_only bc3 bc4" unfolding tn_def tg_def by blast
  have "FindCommonAncestorWithTail E bc (Some b) = Some (Returns (Inr F, bc4))"
    by (simp add: FindCommonAncestorWithTail_def g0 t1 wt wg wb)
  with recency_only_trans[OF r13 r4] show ?thesis by blast
qed

subsection \<open>The walk back from the old tail, and the head fingerprint\<close>

lemma sint_of_nat_small:
  assumes "m < 2 ^ 63"
  shows "sint (of_nat m :: 64 word) = int m"
proof -
  from assms have "int m < 2 ^ 63"
    by (metis of_nat_less_numeral_power_cancel_iff)
  then show ?thesis
    by (simp add: signed_of_nat signed_take_bit_int_eq_self)
qed

lemma revert_count_positive:
  "0 < m \<Longrightarrow> m < 2 ^ 63 \<Longrightarrow> (0 :: 64 word) <s of_nat m"
  by (simp add: word_sless_alt sint_of_nat_small)

lemma lookup_ReturnTransactions [simp]: "lookup E (ReturnTransactions bc x) = lookup E bc"
  by (rule ext) (simp add: lookup_eq ReturnTransactions_def cong: option.case_cong)

lemma lookup_metrics_update [simp]: "lookup E (bc\<lparr>metrics := m\<rparr>) = lookup E bc"
  by (rule ext) (simp add: lookup_eq cong: option.case_cong)

lemma recency_only_txPool:
  assumes "recency_only a b"
  shows "recency_only (a\<lparr>txPool := p\<rparr>) (b\<lparr>txPool := p\<rparr>)"
proof -
  from assms have e: "b = a\<lparr>cachedBlocks := cachedBlocks b\<rparr>"
    and c: "capacity (cachedBlocks b) = capacity (cachedBlocks a)"
    and m: "map_of (entries (cachedBlocks b)) = map_of (entries (cachedBlocks a))"
    by (simp_all add: recency_only_def)
  have "b\<lparr>txPool := p\<rparr> = a\<lparr>txPool := p, cachedBlocks := cachedBlocks b\<rparr>"
    by (subst e) simp
  with c m show ?thesis by (simp add: recency_only_def)
qed

lemma recency_only_metrics:
  assumes "recency_only a b"
  shows "recency_only (a\<lparr>metrics := p\<rparr>) (b\<lparr>metrics := p\<rparr>)"
proof -
  from assms have e: "b = a\<lparr>cachedBlocks := cachedBlocks b\<rparr>"
    and c: "capacity (cachedBlocks b) = capacity (cachedBlocks a)"
    and m: "map_of (entries (cachedBlocks b)) = map_of (entries (cachedBlocks a))"
    by (simp_all add: recency_only_def)
  have "b\<lparr>metrics := p\<rparr> = a\<lparr>metrics := p, cachedBlocks := cachedBlocks b\<rparr>"
    by (subst e) simp
  with c m show ?thesis by (simp add: recency_only_def)
qed

lemma revert_walk_path:
  assumes "linked (lookup E bc) (os @ [F])" and "\<forall>x\<in>set os. hash x \<noteq> hash F"
  shows "\<exists>bc'. revert_walk E bc (hd (os @ [F])) F c = Some (Returns (c + of_nat (length os), bc'))
           \<and> recency_only (bc\<lparr>txPool := txPool bc @ concat (map transactions os)\<rparr>) bc'"
  using assms
proof (induction os arbitrary: bc c)
  case Nil
  then show ?case by (subst revert_walk.simps) simp
next
  case (Cons x xs)
  let ?bcr = "ReturnTransactions bc x"
  let ?T = "concat (map transactions xs)"
  from Cons.prems(1) have p: "lookup E ?bcr (parentHash x) = Some (hd (xs @ [F]))"
    and l: "linked (lookup E bc) (xs @ [F])"
    by (simp_all add: linked_Cons)
  from p obtain bc1 where g: "GetBlock E ?bcr (parentHash x) = (Some (hd (xs @ [F])), bc1)"
    and r1: "recency_only ?bcr bc1" by (rule GetBlock_lookup)
  from l have "linked (lookup E bc1) (xs @ [F])"
    by (simp add: recency_only_lookup[OF r1])
  from Cons.IH[OF this, of "c + 1"] Cons.prems(2)
  obtain bc' where w: "revert_walk E bc1 (hd (xs @ [F])) F (c + 1)
                         = Some (Returns (c + 1 + of_nat (length xs), bc'))"
    and r2: "recency_only (bc1\<lparr>txPool := txPool bc1 @ ?T\<rparr>) bc'" by auto
  from Cons.prems(2) have ne: "hash x \<noteq> hash F" by simp
  have e: "c + 1 + of_nat (length xs) = c + of_nat (length (x # xs))" by simp
  have 1: "revert_walk E bc (hd ((x # xs) @ [F])) F c
             = Some (Returns (c + of_nat (length (x # xs)), bc'))"
    using w[unfolded e] by (subst revert_walk.simps) (simp add: ne g)
  have "txPool bc1 = txPool ?bcr" by (rule recency_only_fields(5)[OF r1])
  then have tp: "txPool bc1 @ ?T = txPool bc @ concat (map transactions (x # xs))"
    by (simp add: ReturnTransactions_def)
  have "recency_only (?bcr\<lparr>txPool := txPool bc1 @ ?T\<rparr>) (bc1\<lparr>txPool := txPool bc1 @ ?T\<rparr>)"
    by (rule recency_only_txPool[OF r1])
  from recency_only_trans[OF this r2]
  have "recency_only (bc\<lparr>txPool := txPool bc @ concat (map transactions (x # xs))\<rparr>) bc'"
    by (simp add: tp ReturnTransactions_def)
  with 1 show ?case by blast
qed

lemma ancestor_walk_genesis:
  "CheckGenesisBlock E (Some a) \<Longrightarrow> ancestor_walk E bc (Some a) k = Returns (Some a, bc)"
  by (induction k) simp_all

lemma ancestor_walk_exact:
  assumes "linked (lookup E bc) (up @ [a])"
      and "\<forall>x\<in>set up. hash x \<noteq> GenesisHash E"
      and "length up = k \<or> (length up < k \<and> hash a = GenesisHash E)"
  shows "\<exists>bc'. ancestor_walk E bc (Some (hd (up @ [a]))) k = Returns (Some a, bc')
           \<and> recency_only bc bc'"
  using assms
proof (induction up arbitrary: bc k)
  case Nil
  show ?case
  proof (cases k)
    case 0
    then show ?thesis by (simp add: recency_only_refl)
  next
    case (Suc j)
    with Nil.prems(3) have "CheckGenesisBlock E (Some a)" by (simp add: CheckGenesisBlock_def)
    from ancestor_walk_genesis[OF this] show ?thesis by (simp add: recency_only_refl)
  qed
next
  case (Cons x xs)
  from Cons.prems(3) obtain j where k: "k = Suc j" by (cases k) auto
  from Cons.prems(1) have p: "lookup E bc (parentHash x) = Some (hd (xs @ [a]))"
    and l: "linked (lookup E bc) (xs @ [a])"
    by (simp_all add: linked_Cons)
  from p obtain bc1 where g: "GetBlock E bc (parentHash x) = (Some (hd (xs @ [a])), bc1)"
    and r1: "recency_only bc bc1" by (rule GetBlock_lookup)
  from l have l1: "linked (lookup E bc1) (xs @ [a])"
    by (simp add: recency_only_lookup[OF r1])
  have "length xs = j \<or> (length xs < j \<and> hash a = GenesisHash E)"
    using Cons.prems(3) k by auto
  from Cons.IH[OF l1 _ this] Cons.prems(2)
  obtain bc' where w: "ancestor_walk E bc1 (Some (hd (xs @ [a]))) j = Returns (Some a, bc')"
    and r2: "recency_only bc1 bc'" by auto
  from Cons.prems(2) have "\<not> CheckGenesisBlock E (Some x)" by (simp add: CheckGenesisBlock_def)
  then have "ancestor_walk E bc (Some (hd ((x # xs) @ [a]))) k = Returns (Some a, bc')"
    using g w k by simp
  with recency_only_trans[OF r1 r2] show ?case by blast
qed

lemma Hex_length: "length (Hex h) = 2 * length h"
  by (induction h) (simp_all add: Hex_Cons)

lemma hexdigit_below:
  "\<forall>d\<in>set [0..<16]. hexval (hexdigit d) = Some (int d)
      \<and> hexdigit d \<noteq> CHR ''+'' \<and> hexdigit d \<noteq> CHR ''-''"
  by (simp add: upt_rec hexdigit_def hexval_def)

lemma hexdigit_mod: "hexdigit (d mod 16) = hexdigit d"
  by (simp add: hexdigit_def)

lemma hexval_hexdigit: "hexval (hexdigit d) = Some (int (d mod 16))"
proof -
  have "d mod 16 \<in> set [0..<16]" by simp
  with hexdigit_below have "hexval (hexdigit (d mod 16)) = Some (int (d mod 16))" by blast
  then show ?thesis by (simp only: hexdigit_mod)
qed

lemma hexdigit_no_sign: "hexdigit d \<noteq> CHR ''+''" "hexdigit d \<noteq> CHR ''-''"
proof -
  have "d mod 16 \<in> set [0..<16]" by simp
  with hexdigit_below
  have "hexdigit (d mod 16) \<noteq> CHR ''+'' \<and> hexdigit (d mod 16) \<noteq> CHR ''-''" by blast
  then show "hexdigit d \<noteq> CHR ''+''" "hexdigit d \<noteq> CHR ''-''"
    unfolding hexdigit_mod by blast+
qed

lemma Hex_append: "Hex (a @ b) = Hex a @ Hex b"
  by (simp add: Hex_def)

lemma of_char_byte: "(of_char c :: nat) < 256"
  using of_char_mod_256[of c, where ?'a = nat] by (metis mod_less_divisor zero_less_numeral)

lemma int_div_mod_16: "int (m div 16) * 16 + int (m mod 16) = int m"
proof -
  have "m div 16 * 16 + m mod 16 = m" by simp
  then have "int (m div 16 * 16 + m mod 16) = int m" by (rule arg_cong)
  then show ?thesis by (simp only: of_nat_add of_nat_mult of_nat_numeral)
qed

lemma two_bytes_value:
  fixes a b c :: int
  shows "(a * 16 + b) * 16 + c = 256 * a + (b * 16 + c)"
  by simp

lemma parse_digits_Hex2:
  "parse_digits 0 (Hex [x, y]) = Some (int (256 * of_char x + of_char y))"
proof -
  let ?x = "of_char x :: nat" and ?y = "of_char y :: nat"
  have x: "?x div 16 mod 16 = ?x div 16" and y: "?y div 16 mod 16 = ?y div 16"
    using of_char_byte[of x] of_char_byte[of y] by (simp_all add: div_less_iff_less_mult)
  have "parse_digits 0 (Hex [x, y])
          = Some (((int (?x div 16) * 16 + int (?x mod 16)) * 16 + int (?y div 16)) * 16
                  + int (?y mod 16))"
    by (simp add: Hex_Cons hexval_hexdigit x y)
  also have "((int (?x div 16) * 16 + int (?x mod 16)) * 16 + int (?y div 16)) * 16
                  + int (?y mod 16) = 256 * int ?x + int ?y"
    unfolding int_div_mod_16 two_bytes_value ..
  also have "256 * int ?x + int ?y = int (256 * ?x + ?y)"
    by (simp only: of_nat_add of_nat_mult of_nat_numeral)
  finally show ?thesis .
qed

lemma hashToInt64_Hex:
  "hashToInt64 (Hex (p @ [x, y])) = Returns (Inr (of_nat (256 * of_char x + of_char y)))"
proof -
  let ?v = "256 * of_char x + of_char y :: nat"
  have d: "drop (length (Hex (p @ [x, y])) - 4) (Hex (p @ [x, y])) = Hex [x, y]"
    by (simp add: Hex_append Hex_length)
  have l: "\<not> length (Hex (p @ [x, y])) < 4" by (simp add: Hex_length)
  have "?v < 65536" using of_char_byte[of x] of_char_byte[of y] by arith
  then have b: "int ?v < 2 ^ 31" by simp
  obtain c cs where s: "Hex [x, y] = c # cs" and c: "c = hexdigit (of_char x div 16)"
    by (simp add: Hex_Cons)
  have "ParseInt_16_32 (Hex [x, y]) = Inr (int ?v)"
    using parse_digits_Hex2[of x y] b hexdigit_no_sign[of "of_char x div 16"]
    unfolding ParseInt_16_32_def s c by (simp add: Let_def)
  with d l show ?thesis by (simp add: hashToInt64_def)
qed


subsection \<open>The tail switch on two branches\<close>

lemma SetTailBlock_reorg:
  assumes ot: "tailBlock bc = Some ot"
      and nt: "nt = hd (new @ [F])"
      and res: "lookup E (promote bc nt) (hash ot) = Some ot"
      and lN: "linked (lookup E (promote bc nt)) (new @ [F])"
      and lO: "linked (lookup E (promote bc nt)) (ot # os @ [F])"
      and cN: "consecutive (new @ [F])"
      and cO: "consecutive (ot # os @ [F])"
      and dis: "\<forall>x\<in>set new. \<forall>y\<in>set (ot # os). hash x \<noteq> hash y"
      and anc: "\<forall>y\<in>set (ot # os). hash y \<noteq> hash F"
      and len: "length (ot # os) < 2 ^ 63"
  shows "\<exists>bc1 bc'.
           FindCommonAncestorWithTail E (promote bc nt) (Some ot) = Some (Returns (Inr F, bc1))
         \<and> SetTailBlock E bc (Some nt) = Some (Returns bc')
         \<and> recency_only
              ((promote bc nt)
                 \<lparr>txPool := txPool bc @ concat (map transactions (ot # os)),
                  metrics := (metrics bc)
                    \<lparr>blockRevertTimesGauge := of_nat (length (ot # os)),
                     blockRevertMeter := blockRevertMeter (metrics bc) + 1\<rparr>\<rparr>) bc'"
proof -
  let ?P = "promote bc nt"
  let ?old = "ot # os"
  have t: "tailBlock ?P = Some (hd (new @ [F]))" by (simp add: nt)
  have res': "lookup E ?P (hash ot) = Some (hd (?old @ [F]))" using res by simp
  from FindCommonAncestorWithTail_fork[OF t res' lN _ cN _ dis] lO cO
  obtain bc1 where fca: "FindCommonAncestorWithTail E ?P (Some ot) = Some (Returns (Inr F, bc1))"
    and r1: "recency_only ?P bc1" by auto
  from lO have "linked (lookup E bc1) (?old @ [F])"
    by (simp add: recency_only_lookup[OF r1])
  from revert_walk_path[OF this anc, of 0]
  obtain bc2 where rw: "revert_walk E bc1 ot F 0 = Some (Returns (of_nat (length ?old), bc2))"
    and r2: "recency_only (bc1\<lparr>txPool := txPool bc1 @ concat (map transactions ?old)\<rparr>) bc2"
    by auto
  have pos: "(0 :: 64 word) <s of_nat (length ?old)"
    using len by (intro revert_count_positive) simp_all
  from anc have ne: "hash F \<noteq> hash ot" by auto
  let ?M = "(metrics bc2)\<lparr>blockRevertTimesGauge := of_nat (length ?old),
                          blockRevertMeter := blockRevertMeter (metrics bc2) + 1\<rparr>"
  have set: "SetTailBlock E bc (Some nt) = Some (Returns (bc2\<lparr>metrics := ?M\<rparr>))"
    using pos by (simp add: SetTailBlock_def ot fca ne rw del: length_Cons of_nat_Suc)
  have tp: "txPool bc1 = txPool bc"
    using recency_only_fields(5)[OF r1] by simp
  have "recency_only (?P\<lparr>txPool := txPool bc1 @ concat (map transactions ?old)\<rparr>)
          (bc1\<lparr>txPool := txPool bc1 @ concat (map transactions ?old)\<rparr>)"
    by (rule recency_only_txPool[OF r1])
  from recency_only_trans[OF this r2]
  have r3: "recency_only (?P\<lparr>txPool := txPool bc @ concat (map transactions ?old)\<rparr>) bc2"
    by (simp add: tp)
  have "metrics bc2 = metrics bc"
    using recency_only_fields(4)[OF r3] by simp
  with recency_only_metrics[OF r3, of ?M]
  have "recency_only
          (?P\<lparr>txPool := txPool bc @ concat (map transactions ?old),
               metrics := (metrics bc)\<lparr>blockRevertTimesGauge := of_nat (length ?old),
                  blockRevertMeter := blockRevertMeter (metrics bc) + 1\<rparr>\<rparr>)
          (bc2\<lparr>metrics := ?M\<rparr>)"
    by simp
  with fca set show ?thesis by blast
qed

lemma SetTailBlock_forward:
  assumes ot: "tailBlock bc = Some ot"
      and nt: "nt = hd (new @ [ot])"
      and res: "lookup E (promote bc nt) (hash ot) = Some ot"
      and lN: "linked (lookup E (promote bc nt)) (new @ [ot])"
      and cN: "consecutive (new @ [ot])"
      and up: "nt = hd (up @ [a])"
      and lU: "linked (lookup E (promote bc nt)) (up @ [a])"
      and ng: "\<forall>x\<in>set up. hash x \<noteq> GenesisHash E"
      and six: "length up = 6 \<or> (length up < 6 \<and> hash a = GenesisHash E)"
      and ha: "hash a = p @ [x, y]"
  shows "\<exists>bc'.
           SetTailBlock E bc (Some nt) = Some (Returns bc')
         \<and> recency_only
              ((promote bc nt)
                 \<lparr>metrics := (metrics bc)
                    \<lparr>blockHeightGauge := height nt,
                     blocktailHashGauge := of_nat (256 * of_char x + of_char y)\<rparr>\<rparr>) bc'"
proof -
  let ?P = "promote bc nt"
  let ?v = "of_nat (256 * of_char x + of_char y) :: 64 word"
  have t: "tailBlock ?P = Some (hd (new @ [ot]))" by (simp add: nt)
  have res': "lookup E ?P (hash ot) = Some (hd ([] @ [ot]))" using res by simp
  from FindCommonAncestorWithTail_fork[OF t res' lN _ cN]
  obtain bc1 where fca: "FindCommonAncestorWithTail E ?P (Some ot) = Some (Returns (Inr ot, bc1))"
    and r1: "recency_only ?P bc1" by auto
  let ?M = "(metrics bc1)\<lparr>blockHeightGauge := height nt\<rparr>"
  let ?bc2 = "bc1\<lparr>metrics := ?M\<rparr>"
  have m1: "metrics bc1 = metrics bc" using recency_only_fields(4)[OF r1] by simp
  have r2: "recency_only (?P\<lparr>metrics := ?M\<rparr>) ?bc2"
    by (rule recency_only_metrics[OF r1])
  have t2: "tailBlock ?bc2 = Some (hd (up @ [a]))"
    using recency_only_fields(1)[OF r1] up by simp
  have l2: "linked (lookup E ?bc2) (up @ [a])"
    using lU by (simp add: recency_only_lookup[OF r1])
  from ancestor_walk_exact[OF l2 ng six]
  obtain bc3 where aw: "ancestor_walk E ?bc2 (Some (hd (up @ [a]))) 6 = Returns (Some a, bc3)"
    and r3: "recency_only ?bc2 bc3" by blast
  have ga: "getAncestorHash E ?bc2 6 = Returns (hash a, bc3)"
    using aw t2 by (simp add: getAncestorHash_def)
  have h: "hashToInt64 (Hex (hash a)) = Returns (Inr ?v)"
    unfolding ha by (rule hashToInt64_Hex)
  note r23 = recency_only_trans[OF r2 r3]
  have m3: "metrics bc3 = ?M" using recency_only_fields(4)[OF r3] by simp
  have "SetTailBlock E bc (Some nt)
          = Some (Returns (bc3\<lparr>metrics := (metrics bc3)\<lparr>blocktailHashGauge := ?v\<rparr>\<rparr>))"
    by (simp add: SetTailBlock_def ot fca ga h)
  moreover have "recency_only
      (?P\<lparr>metrics := (metrics bc)\<lparr>blockHeightGauge := height nt, blocktailHashGauge := ?v\<rparr>\<rparr>)
      (bc3\<lparr>metrics := (metrics bc3)\<lparr>blocktailHashGauge := ?v\<rparr>\<rparr>)"
    using recency_only_metrics[OF r23, of "(metrics bc3)\<lparr>blocktailHashGauge := ?v\<rparr>"]
    by (simp add: m3 m1)
  ultimately show ?thesis by blast
qed


subsection \<open>Reorganisation and forward extension\<close>

lemmas ex_lookup = lookup_eq promote_def storeTailToStorage_def Put_def ex_chain_def
  ex_chain_readonly_def lru_Remove_def ex_Hex ex_load ex_blocks

lemma ex_chain_links:
  "lookup ex_extern (promote ex_chain blkD) (hash blkB) = Some blkB"
  "linked (lookup ex_extern (promote ex_chain blkD)) ([blkD, blkC] @ [blkG])"
  "linked (lookup ex_extern (promote ex_chain blkD)) (blkB # [blkA] @ [blkG])"
  by (simp_all add: ex_lookup)

lemma ex_chain_readonly_links:
  "lookup ex_extern (promote ex_chain_readonly blkD) (hash blkB) = Some blkB"
  "linked (lookup ex_extern (promote ex_chain_readonly blkD)) ([blkD, blkC] @ [blkG])"
  "linked (lookup ex_extern (promote ex_chain_readonly blkD)) (blkB # [blkA] @ [blkG])"
  by (simp_all add: ex_lookup)

lemma ex_branches:
  "consecutive ([blkD, blkC] @ [blkG])"
  "consecutive (blkB # [blkA] @ [blkG])"
  "\<forall>x\<in>set [blkD, blkC]. \<forall>y\<in>set (blkB # [blkA]). hash x \<noteq> hash y"
  "\<forall>y\<in>set (blkB # [blkA]). hash y \<noteq> hash blkG"
  "length (blkB # [blkA]) < 2 ^ 63"
  by (simp_all add: ex_blocks)

text \<open>
  C3. Two branches that share the block \<open>F\<close> and diverge after it: the current tail
  \<open>ot\<close> with the blocks \<open>os\<close> below it down to \<open>F\<close>, and the branch \<open>new\<close> that ends
  in the new tail \<open>nt\<close>; every parent link resolves, heights go up by one, and no block
  of one branch has the hash of a block of the other or of \<open>F\<close>. Then
  \<^verbatim>\<open>FindCommonAncestorWithTail\<close>, called on the old tail once the new tail is set,
  returns \<open>F\<close>, and \<^verbatim>\<open>SetTailBlock\<close> returns with the transactions of the abandoned
  blocks pushed back to the pool, each block once, from the old tail down, the revert gauge
  at the number of abandoned blocks and one revert event marked. The witness is the
  scenario of the genesis block \<open>g0\<close>, the branch \<open>a1\<close>, \<open>b2\<close> with \<open>b2\<close> as tail,
  and the competing branch \<open>c1\<close>, \<open>d2\<close>.
\<close>

theorem SetTailBlock_reorganisation:
  assumes "tailBlock bc = Some ot"
      and "nt = hd (new @ [F])"
      and "lookup E (promote bc nt) (hash ot) = Some ot"
      and "linked (lookup E (promote bc nt)) (new @ [F])"
      and "linked (lookup E (promote bc nt)) (ot # os @ [F])"
      and "consecutive (new @ [F])"
      and "consecutive (ot # os @ [F])"
      and "\<forall>x\<in>set new. \<forall>y\<in>set (ot # os). hash x \<noteq> hash y"
      and "\<forall>y\<in>set (ot # os). hash y \<noteq> hash F"
      and "length (ot # os) < 2 ^ 63"
  shows "\<exists>bc1 bc'.
           FindCommonAncestorWithTail E (promote bc nt) (Some ot) = Some (Returns (Inr F, bc1))
         \<and> SetTailBlock E bc (Some nt) = Some (Returns bc')
         \<and> tailBlock bc' = Some nt
         \<and> txPool bc' = txPool bc @ concat (map transactions (ot # os))
         \<and> sint (blockRevertTimesGauge (metrics bc')) = int (length (ot # os))
         \<and> blockRevertMeter (metrics bc') = blockRevertMeter (metrics bc) + 1"
proof -
  from SetTailBlock_reorg[OF assms] obtain bc1 bc' where
    fca: "FindCommonAncestorWithTail E (promote bc nt) (Some ot) = Some (Returns (Inr F, bc1))"
    and set: "SetTailBlock E bc (Some nt) = Some (Returns bc')"
    and r: "recency_only
              ((promote bc nt)
                 \<lparr>txPool := txPool bc @ concat (map transactions (ot # os)),
                  metrics := (metrics bc)
                    \<lparr>blockRevertTimesGauge := of_nat (length (ot # os)),
                     blockRevertMeter := blockRevertMeter (metrics bc) + 1\<rparr>\<rparr>) bc'"
    by blast
  have "tailBlock bc' = Some nt"
    using recency_only_fields(1)[OF r] by simp
  moreover have "txPool bc' = txPool bc @ concat (map transactions (ot # os))"
    using recency_only_fields(5)[OF r] by simp
  moreover have m: "metrics bc' = (metrics bc)
                    \<lparr>blockRevertTimesGauge := of_nat (length (ot # os)),
                     blockRevertMeter := blockRevertMeter (metrics bc) + 1\<rparr>"
    using recency_only_fields(4)[OF r] by simp
  moreover have "sint (blockRevertTimesGauge (metrics bc')) = int (length (ot # os))"
    unfolding m using sint_of_nat_small[OF assms(10)] by simp
  moreover have "blockRevertMeter (metrics bc') = blockRevertMeter (metrics bc) + 1"
    unfolding m by simp
  ultimately show ?thesis using fca set by blast
qed

theorem SetTailBlock_reorganisation_witness:
  "tailBlock ex_chain = Some blkB
   \<and> lookup ex_extern (promote ex_chain blkD) (hash blkB) = Some blkB
   \<and> linked (lookup ex_extern (promote ex_chain blkD)) [blkD, blkC, blkG]
   \<and> linked (lookup ex_extern (promote ex_chain blkD)) [blkB, blkA, blkG]
   \<and> consecutive [blkD, blkC, blkG] \<and> consecutive [blkB, blkA, blkG]
   \<and> (\<exists>bc1 bc'.
         FindCommonAncestorWithTail ex_extern (promote ex_chain blkD) (Some blkB)
           = Some (Returns (Inr blkG, bc1))
       \<and> SetTailBlock ex_extern ex_chain (Some blkD) = Some (Returns bc')
       \<and> tailBlock bc' = Some blkD
       \<and> txPool bc' = transactions blkB @ transactions blkA
       \<and> sint (blockRevertTimesGauge (metrics bc')) = 2
       \<and> blockRevertMeter (metrics bc') = 1)"
proof -
  have t: "tailBlock ex_chain = Some blkB" by (simp add: ex_chain_def)
  have n: "blkD = hd ([blkD, blkC] @ [blkG])" by simp
  have p: "txPool ex_chain = []" "blockRevertMeter (metrics ex_chain) = 0"
    by (simp_all add: ex_chain_def ex_metrics_def)
  have l: "linked (lookup ex_extern (promote ex_chain blkD)) [blkD, blkC, blkG]"
    "linked (lookup ex_extern (promote ex_chain blkD)) [blkB, blkA, blkG]"
    by (simp_all add: ex_lookup)
  have c: "consecutive [blkD, blkC, blkG]" "consecutive [blkB, blkA, blkG]"
    by (simp_all add: ex_blocks)
  have "\<exists>bc1 bc'.
         FindCommonAncestorWithTail ex_extern (promote ex_chain blkD) (Some blkB)
           = Some (Returns (Inr blkG, bc1))
       \<and> SetTailBlock ex_extern ex_chain (Some blkD) = Some (Returns bc')
       \<and> tailBlock bc' = Some blkD
       \<and> txPool bc' = transactions blkB @ transactions blkA
       \<and> sint (blockRevertTimesGauge (metrics bc')) = 2
       \<and> blockRevertMeter (metrics bc') = 1"
    using SetTailBlock_reorganisation
         [OF t n ex_chain_links(1) ex_chain_links(2) ex_chain_links(3) ex_branches]
    by (simp add: p)
  with t ex_chain_links(1) l c show ?thesis by blast
qed


text \<open>
  C4. A pure forward extension: the new tail \<open>nt\<close> is the head of the blocks \<open>new\<close>
  that lead down to the old tail \<open>ot\<close>, with parent links that resolve and heights that
  go up by one from \<open>ot\<close> to \<open>nt\<close>. The head fingerprint is read six blocks below the
  new tail, or at the genesis block when that comes first: \<open>up\<close> are the blocks the walk
  of \<^verbatim>\<open>getAncestorHash\<close> passes, from \<open>nt\<close> down, and \<open>a\<close> is the block it ends on,
  whose hash ends in the bytes \<open>x\<close> and \<open>y\<close>. Then \<^verbatim>\<open>SetTailBlock\<close> returns, no
  transaction is pushed back to the pool, the revert gauge and the revert meter are as
  before, and of the metrics only the height gauge, set to the height of the new tail,
  and the tail-hash gauge, set to the number that the last two bytes of the hash of \<open>a\<close>
  spell, are written.
\<close>

theorem SetTailBlock_forward_extension:
  assumes "tailBlock bc = Some ot"
      and "nt = hd (new @ [ot])"
      and "lookup E (promote bc nt) (hash ot) = Some ot"
      and "linked (lookup E (promote bc nt)) (new @ [ot])"
      and "consecutive (new @ [ot])"
      and "nt = hd (up @ [a])"
      and "linked (lookup E (promote bc nt)) (up @ [a])"
      and "\<forall>x\<in>set up. hash x \<noteq> GenesisHash E"
      and "length up = 6 \<or> (length up < 6 \<and> hash a = GenesisHash E)"
      and "hash a = p @ [x, y]"
  shows "\<exists>bc'.
           SetTailBlock E bc (Some nt) = Some (Returns bc')
         \<and> tailBlock bc' = Some nt
         \<and> txPool bc' = txPool bc
         \<and> blockRevertTimesGauge (metrics bc') = blockRevertTimesGauge (metrics bc)
         \<and> blockRevertMeter (metrics bc') = blockRevertMeter (metrics bc)
         \<and> metrics bc' = (metrics bc)
              \<lparr>blockHeightGauge := height nt,
               blocktailHashGauge := of_nat (256 * of_char x + of_char y)\<rparr>"
proof -
  from SetTailBlock_forward[OF assms] obtain bc' where
    set: "SetTailBlock E bc (Some nt) = Some (Returns bc')"
    and r: "recency_only
              ((promote bc nt)
                 \<lparr>metrics := (metrics bc)
                    \<lparr>blockHeightGauge := height nt,
                     blocktailHashGauge := of_nat (256 * of_char x + of_char y)\<rparr>\<rparr>) bc'"
    by blast
  have "tailBlock bc' = Some nt"
    using recency_only_fields(1)[OF r] by simp
  moreover have "txPool bc' = txPool bc"
    using recency_only_fields(5)[OF r] by simp
  moreover have m: "metrics bc' = (metrics bc)
              \<lparr>blockHeightGauge := height nt,
               blocktailHashGauge := of_nat (256 * of_char x + of_char y)\<rparr>"
    using recency_only_fields(4)[OF r] by simp
  moreover have "blockRevertTimesGauge (metrics bc') = blockRevertTimesGauge (metrics bc)"
    "blockRevertMeter (metrics bc') = blockRevertMeter (metrics bc)"
    unfolding m by simp_all
  ultimately show ?thesis using set by blast
qed

theorem SetTailBlock_forward_extension_witness:
  "tailBlock (ex_chain\<lparr>tailBlock := Some blkA\<rparr>) = Some blkA
   \<and> lookup ex_extern (promote (ex_chain\<lparr>tailBlock := Some blkA\<rparr>) blkB) (hash blkA) = Some blkA
   \<and> linked (lookup ex_extern (promote (ex_chain\<lparr>tailBlock := Some blkA\<rparr>) blkB))
        [blkB, blkA, blkG]
   \<and> consecutive [blkB, blkA]
   \<and> hash blkG = GenesisHash ex_extern
   \<and> hash blkG = [CHR ''g'', CHR ''0'']
   \<and> (\<exists>bc'.
         SetTailBlock ex_extern (ex_chain\<lparr>tailBlock := Some blkA\<rparr>) (Some blkB)
           = Some (Returns bc')
       \<and> tailBlock bc' = Some blkB
       \<and> txPool bc' = []
       \<and> blockRevertMeter (metrics bc') = 0
       \<and> metrics bc' = ex_metrics\<lparr>blockHeightGauge := 2, blocktailHashGauge := 26416\<rparr>)"
proof -
  let ?bc = "ex_chain\<lparr>tailBlock := Some blkA\<rparr>"
  have t: "tailBlock ?bc = Some blkA" by simp
  have n: "blkB = hd ([blkB] @ [blkA])" by simp
  have r: "lookup ex_extern (promote ?bc blkB) (hash blkA) = Some blkA"
    by (simp add: ex_lookup)
  have l: "linked (lookup ex_extern (promote ?bc blkB)) ([blkB] @ [blkA])"
    by (simp add: ex_lookup)
  have c: "consecutive ([blkB] @ [blkA])"
    by (simp add: ex_blocks)
  have u: "blkB = hd ([blkB, blkA] @ [blkG])" by simp
  have lu: "linked (lookup ex_extern (promote ?bc blkB)) ([blkB, blkA] @ [blkG])"
    by (simp add: ex_lookup)
  have ng: "\<forall>x\<in>set [blkB, blkA]. hash x \<noteq> GenesisHash ex_extern"
    by (simp add: ex_blocks ex_extern_def)
  have g: "hash blkG = GenesisHash ex_extern"
    by (simp add: ex_extern_def ex_blocks)
  then have six: "length [blkB, blkA] = 6
                   \<or> (length [blkB, blkA] < 6 \<and> hash blkG = GenesisHash ex_extern)"
    by simp
  have ha: "hash blkG = [] @ [CHR ''g'', CHR ''0'']"
    by (simp add: ex_blocks)
  have p: "txPool ?bc = []" "metrics ?bc = ex_metrics" "height blkB = 2"
    "blockRevertMeter ex_metrics = 0"
    "(of_nat (256 * of_char CHR ''g'' + of_char CHR ''0'') :: 64 word) = 26416"
    by (simp_all add: ex_chain_def ex_metrics_def ex_blocks)
  have "\<exists>bc'.
         SetTailBlock ex_extern ?bc (Some blkB) = Some (Returns bc')
       \<and> tailBlock bc' = Some blkB
       \<and> txPool bc' = []
       \<and> blockRevertMeter (metrics bc') = 0
       \<and> metrics bc' = ex_metrics\<lparr>blockHeightGauge := 2, blocktailHashGauge := 26416\<rparr>"
    using SetTailBlock_forward_extension [OF t n r l c u lu ng six ha] unfolding p by blast
  moreover have "linked (lookup ex_extern (promote ?bc blkB)) [blkB, blkA, blkG]"
    by (simp add: ex_lookup)
  moreover have "consecutive [blkB, blkA]"
    by (simp add: ex_blocks)
  moreover have "hash blkG = [CHR ''g'', CHR ''0'']"
    by (simp add: ex_blocks)
  ultimately show ?thesis using t r g by blast
qed

text \<open>
  C1. On a store that refuses the write of the tail pointer, \<^verbatim>\<open>SetTailBlock\<close> returns
  as on any other store: the tail in memory is the new tail \<open>d2\<close>, the store still holds
  \<open>b2\<close> under the tail key, and nothing reports the failed write.
\<close>

theorem SetTailBlock_ignores_failed_tail_write:
  "put_fails (storage ex_chain_readonly) (puts (storage ex_chain_readonly))
   \<and> kv (storage ex_chain_readonly) Tail = Some (hash blkB)
   \<and> (\<exists>bc'. SetTailBlock ex_extern ex_chain_readonly (Some blkD) = Some (Returns bc')
          \<and> tailBlock bc' = Some blkD
          \<and> kv (storage bc') Tail = Some (hash blkB))"
proof -
  have t: "tailBlock ex_chain_readonly = Some blkB"
    by (simp add: ex_chain_readonly_def ex_chain_def)
  have n: "blkD = hd ([blkD, blkC] @ [blkG])" by simp
  have f: "put_fails (storage ex_chain_readonly) (puts (storage ex_chain_readonly))"
    by (simp add: ex_chain_readonly_def)
  have k: "kv (storage ex_chain_readonly) Tail = Some (hash blkB)"
    by (simp add: ex_chain_readonly_def ex_chain_def ex_kv_def ex_blocks)
  from SetTailBlock_reorg
         [OF t n ex_chain_readonly_links(1) ex_chain_readonly_links(2)
             ex_chain_readonly_links(3) ex_branches]
  obtain bc' where s: "SetTailBlock ex_extern ex_chain_readonly (Some blkD) = Some (Returns bc')"
    by blast
  from SetTailBlock_frame[OF s]
  have "tailBlock bc' = Some blkD" "storage bc' = storage (promote ex_chain_readonly blkD)"
    by simp_all
  moreover have "kv (storage (promote ex_chain_readonly blkD)) = kv (storage ex_chain_readonly)"
    using f by (simp add: promote_def storeTailToStorage_def Put_def)
  ultimately show ?thesis using f k s by auto
qed

subsection \<open>The tail and the detached tips\<close>

lemma hexdigit_inj: "a < 16 \<Longrightarrow> b < 16 \<Longrightarrow> hexdigit a = hexdigit b \<Longrightarrow> a = b"
proof -
  assume a: "a < 16" and b: "b < 16" and e: "hexdigit a = hexdigit b"
  have d: "distinct ''0123456789abcdef''" by simp
  have l: "length ''0123456789abcdef'' = 16" by simp
  from e a b have "''0123456789abcdef'' ! a = ''0123456789abcdef'' ! b"
    by (simp add: hexdigit_def)
  with nth_eq_iff_index_eq[OF d, of a b] a b l show "a = b" by simp
qed

lemma hex_byte_inj:
  assumes "hexdigit (of_char c div 16) = hexdigit (of_char d div 16)"
      and "hexdigit (of_char c mod 16) = hexdigit (of_char d mod 16)"
  shows "c = d"
proof -
  have lt: "(of_char x :: nat) < 256" for x
    using of_char_mod_256[of x, where ?'a = nat] by (metis mod_less_divisor zero_less_numeral)
  have "(of_char c :: nat) div 16 < 16" "(of_char d :: nat) div 16 < 16"
    using lt[of c] lt[of d] by (simp_all add: div_less_iff_less_mult)
  from hexdigit_inj[OF this assms(1)] have 1: "(of_char c :: nat) div 16 = of_char d div 16" .
  have "(of_char c :: nat) mod 16 = of_char d mod 16"
    using hexdigit_inj[OF _ _ assms(2)] by simp
  with 1 have "(of_char c :: nat) = of_char d"
    by (metis div_mult_mod_eq)
  then show ?thesis by simp
qed

lemma Hex_inj: "Hex a = Hex b \<Longrightarrow> a = b"
proof (induction a arbitrary: b)
  case Nil
  then show ?case by (cases b) (simp_all add: Hex_Cons)
next
  case (Cons c cs)
  then obtain d ds where b: "b = d # ds" by (cases b) (auto simp: Hex_Cons)
  with Cons.prems have "c = d" "Hex cs = Hex ds"
    by (auto simp: Hex_Cons intro: hex_byte_inj)
  with Cons.IH b show ?case by simp
qed

lemma lru_ContainsOrAdd_keys:
  "fst ` set (entries (lru_ContainsOrAdd c k v)) \<subseteq> insert k (fst ` set (entries c))"
  by (auto simp: lru_ContainsOrAdd_def dest!: in_set_takeD)

lemma put_tail_blocks_keys:
  "fst ` set (entries (detachedTailBlocks (put_tail_blocks bc vs)))
     \<subseteq> fst ` set (entries (detachedTailBlocks bc)) \<union> (\<lambda>v. Hex (hash v)) ` set vs"
proof (induction vs arbitrary: bc)
  case Nil
  then show ?case by simp
next
  case (Cons v vs)
  let ?bc = "bc\<lparr>detachedTailBlocks := lru_ContainsOrAdd (detachedTailBlocks bc) (Hex (hash v)) v\<rparr>"
  from Cons.IH[of ?bc] lru_ContainsOrAdd_keys[of "detachedTailBlocks bc" "Hex (hash v)" v]
  show ?case by auto
qed

lemma lru_Remove_keys: "k \<notin> fst ` set (entries (lru_Remove c k))"
  by (auto simp: lru_Remove_def)

subsection \<open>Termination of the common-ancestor search\<close>

lemma reaches_known:
  "reaches look s x \<Longrightarrow> x = s \<or> (\<exists>h. look h = Some x)"
  by (induction rule: reaches.induct) auto

lemma heights_descend_from:
  assumes "heights_descend E bc"
      and "(\<exists>h. lookup E bc h = Some s) \<or> tailBlock bc = Some s"
      and "reaches (lookup E bc) s x"
      and "lookup E bc (parentHash x) = Some p"
  shows "height p < height x"
proof -
  from reaches_known[OF assms(3)] assms(2)
  have "(\<exists>h. lookup E bc h = Some x) \<or> tailBlock bc = Some x" by auto
  with assms(1,4) show ?thesis unfolding heights_descend_def by blast
qed

lemma walk_tail_total:
  assumes D: "\<And>x p. reaches (lookup E bc0) s x \<Longrightarrow> lookup E bc0 (parentHash x) = Some p
                \<Longrightarrow> height p < height x"
      and "reaches (lookup E bc0) s x" and "recency_only bc0 bc"
  shows "\<exists>r. walk_tail E bc (Some x) target = Some r \<and>
           (case r of
              Panics f \<Rightarrow> f = NilDereference
            | Returns (y, bc') \<Rightarrow> reaches (lookup E bc0) s y \<and> recency_only bc0 bc'
                \<and> \<not> height target < height y)"
  using assms(2,3)
proof (induction "unat (height x)" arbitrary: x bc rule: less_induct)
  case less
  show ?case
  proof (cases "height target < height x")
    case False
    then show ?thesis using less.prems by (subst walk_tail.simps) simp
  next
    case True
    obtain bc1 where g: "GetBlock E bc (parentHash x) = (lookup E bc (parentHash x), bc1)"
      and r1: "recency_only bc bc1" by (rule GetBlock_lookup[OF refl])
    have look: "lookup E bc = lookup E bc0" by (rule recency_only_lookup[OF less.prems(2)])
    note r01 = recency_only_trans[OF less.prems(2) r1]
    show ?thesis
    proof (cases "lookup E bc0 (parentHash x)")
      case None
      then show ?thesis using True g look
        by (subst walk_tail.simps) (simp add: walk_tail.simps[of _ _ None])
    next
      case (Some p)
      from D[OF less.prems(1) Some] have "unat (height p) < unat (height x)"
        by (simp add: word_less_nat_alt)
      moreover have "reaches (lookup E bc0) s p"
        using less.prems(1) Some by (rule reaches.up)
      ultimately obtain r where "walk_tail E bc1 (Some p) target = Some r"
        and "case r of
              Panics f \<Rightarrow> f = NilDereference
            | Returns (y, bc') \<Rightarrow> reaches (lookup E bc0) s y \<and> recency_only bc0 bc'
                \<and> \<not> height target < height y"
        using less.hyps[OF _ _ r01] by blast
      then show ?thesis using True g look Some
        by (subst walk_tail.simps) simp
    qed
  qed
qed

lemma walk_target_total:
  assumes D: "\<And>x p. reaches (lookup E bc0) s x \<Longrightarrow> lookup E bc0 (parentHash x) = Some p
                \<Longrightarrow> height p < height x"
      and "reaches (lookup E bc0) s x" and "recency_only bc0 bc"
  shows "\<exists>r. walk_target E bc (Some x) tail = Some r \<and>
           (case r of
              Panics f \<Rightarrow> f = NilDereference
            | Returns (y, bc') \<Rightarrow> reaches (lookup E bc0) s y \<and> recency_only bc0 bc'
                \<and> \<not> height tail < height y)"
  using assms(2,3)
proof (induction "unat (height x)" arbitrary: x bc rule: less_induct)
  case less
  show ?case
  proof (cases "height tail < height x")
    case False
    then show ?thesis using less.prems by (subst walk_target.simps) simp
  next
    case True
    obtain bc1 where g: "GetBlock E bc (parentHash x) = (lookup E bc (parentHash x), bc1)"
      and r1: "recency_only bc bc1" by (rule GetBlock_lookup[OF refl])
    have look: "lookup E bc = lookup E bc0" by (rule recency_only_lookup[OF less.prems(2)])
    note r01 = recency_only_trans[OF less.prems(2) r1]
    show ?thesis
    proof (cases "lookup E bc0 (parentHash x)")
      case None
      then show ?thesis using True g look
        by (subst walk_target.simps) (simp add: walk_target.simps[of _ _ None])
    next
      case (Some p)
      from D[OF less.prems(1) Some] have "unat (height p) < unat (height x)"
        by (simp add: word_less_nat_alt)
      moreover have "reaches (lookup E bc0) s p"
        using less.prems(1) Some by (rule reaches.up)
      ultimately obtain r where "walk_target E bc1 (Some p) tail = Some r"
        and "case r of
              Panics f \<Rightarrow> f = NilDereference
            | Returns (y, bc') \<Rightarrow> reaches (lookup E bc0) s y \<and> recency_only bc0 bc'
                \<and> \<not> height tail < height y"
        using less.hyps[OF _ _ r01] by blast
      then show ?thesis using True g look Some
        by (subst walk_target.simps) simp
    qed
  qed
qed

lemma walk_both_total:
  assumes D1: "\<And>x p. reaches (lookup E bc0) s1 x \<Longrightarrow> lookup E bc0 (parentHash x) = Some p
                \<Longrightarrow> height p < height x"
      and "reaches (lookup E bc0) s1 x" and "reaches (lookup E bc0) s2 y"
      and "recency_only bc0 bc"
  shows "\<exists>r. walk_both E bc x y = Some r \<and>
           (case r of
              Panics f \<Rightarrow> f = ParentMissing
            | Returns (a, bc') \<Rightarrow> reaches (lookup E bc0) s2 a
                \<and> (\<exists>a'. reaches (lookup E bc0) s1 a' \<and> hash a' = hash a)
                \<and> recency_only bc0 bc')"
  using assms(2,3,4)
proof (induction "unat (height x)" arbitrary: x y bc rule: less_induct)
  case less
  show ?case
  proof (cases "hash x \<noteq> hash y")
    case False
    then show ?thesis using less.prems by (subst walk_both.simps) auto
  next
    case True
    obtain bc1 where g1: "GetBlock E bc (parentHash x) = (lookup E bc (parentHash x), bc1)"
      and r1: "recency_only bc bc1" by (rule GetBlock_lookup[OF refl])
    obtain bc2 where g2: "GetBlock E bc1 (parentHash y) = (lookup E bc1 (parentHash y), bc2)"
      and r2: "recency_only bc1 bc2" by (rule GetBlock_lookup[OF refl])
    note r01 = recency_only_trans[OF less.prems(3) r1]
    note r02 = recency_only_trans[OF r01 r2]
    have look: "lookup E bc = lookup E bc0" by (rule recency_only_lookup[OF less.prems(3)])
    have look1: "lookup E bc1 = lookup E bc0" by (rule recency_only_lookup[OF r01])
    show ?thesis
    proof (cases "lookup E bc0 (parentHash x) = None \<or> lookup E bc0 (parentHash y) = None")
      case True
      then show ?thesis using \<open>hash x \<noteq> hash y\<close> g1 g2 look look1
        by (subst walk_both.simps) (auto split: option.splits)
    next
      case False
      then obtain p q where p: "lookup E bc0 (parentHash x) = Some p"
        and q: "lookup E bc0 (parentHash y) = Some q" by auto
      from D1[OF less.prems(1) p] have "unat (height p) < unat (height x)"
        by (simp add: word_less_nat_alt)
      moreover have "reaches (lookup E bc0) s1 p" using less.prems(1) p by (rule reaches.up)
      moreover have "reaches (lookup E bc0) s2 q" using less.prems(2) q by (rule reaches.up)
      ultimately obtain r where "walk_both E bc2 p q = Some r"
        and "case r of
              Panics f \<Rightarrow> f = ParentMissing
            | Returns (a, bc') \<Rightarrow> reaches (lookup E bc0) s2 a
                \<and> (\<exists>a'. reaches (lookup E bc0) s1 a' \<and> hash a' = hash a)
                \<and> recency_only bc0 bc'"
        using less.hyps[OF _ _ _ r02] by blast
      then show ?thesis using True g1 g2 look look1 p q
        by (subst walk_both.simps) simp
    qed
  qed
qed

lemma reaches_closed:
  assumes "reaches look x y" and "x \<in> S"
      and "\<And>u z. u \<in> S \<Longrightarrow> look (parentHash u) = Some z \<Longrightarrow> z \<in> S"
  shows "y \<in> S"
  using assms by (induction rule: reaches.induct) auto

lemma find_in_set: "find P xs = Some x \<Longrightarrow> x \<in> set xs"
  by (induction xs) (auto split: if_splits)

lemma ex_extern_loads:
  assumes "LoadBlockFromStorage ex_extern s h = Inr x"
  shows "x \<in> {blkG, blkA, blkB, blkC, blkD}"
proof -
  from assms obtain v where "decode ex_extern v = Some x"
    by (auto simp: LoadBlockFromStorage_def split: sum.splits option.splits if_splits)
  then have "find (\<lambda>b. ex_encode b = v) [blkG, blkA, blkB, blkC, blkD] = Some x"
    by (simp add: ex_extern_def)
  from find_in_set[OF this] show ?thesis by simp
qed

lemma ex_known_blocks:
  assumes "lookup ex_extern bc h = Some x"
      and "snd ` set (entries (cachedBlocks bc)) \<subseteq> {blkG, blkA, blkB, blkC, blkD}"
  shows "x \<in> {blkG, blkA, blkB, blkC, blkD}"
proof (cases "map_of (entries (cachedBlocks bc)) (Hex h)")
  case None
  with assms(1) have "LoadBlockFromStorage ex_extern (storage bc) h = Inr x"
    by (simp add: lookup_eq split: sum.splits)
  then show ?thesis by (rule ex_extern_loads)
next
  case (Some y)
  with assms(1) have "x = y" by (simp add: lookup_eq)
  with Some have "(Hex h, x) \<in> set (entries (cachedBlocks bc))" by (simp add: map_of_SomeD)
  then have "x \<in> snd ` set (entries (cachedBlocks bc))" by force
  with assms(2) show ?thesis by blast
qed

lemma heights_descend_known:
  assumes "\<And>h x. lookup E bc h = Some x \<Longrightarrow> x \<in> S"
      and "\<And>x. tailBlock bc = Some x \<Longrightarrow> x \<in> S"
      and "\<forall>x\<in>S. \<forall>p. lookup E bc (parentHash x) = Some p \<longrightarrow> height p < height x"
  shows "heights_descend E bc"
  unfolding heights_descend_def using assms by blast

lemmas ex_lookup_broken = ex_lookup ex_chain_broken_def

lemma ex_chain_descends: "heights_descend ex_extern ex_chain"
proof (rule heights_descend_known[where S = "{blkG, blkA, blkB, blkC, blkD}"])
  fix h x assume "lookup ex_extern ex_chain h = Some x"
  then show "x \<in> {blkG, blkA, blkB, blkC, blkD}"
    by (rule ex_known_blocks) (simp add: ex_chain_def)
next
  fix x assume "tailBlock ex_chain = Some x"
  then show "x \<in> {blkG, blkA, blkB, blkC, blkD}" by (simp add: ex_chain_def)
next
  show "\<forall>x\<in>{blkG, blkA, blkB, blkC, blkD}.
          \<forall>p. lookup ex_extern ex_chain (parentHash x) = Some p \<longrightarrow> height p < height x"
    by (simp add: ex_lookup)
qed

lemma ex_chain_broken_descends: "heights_descend ex_extern ex_chain_broken"
proof (rule heights_descend_known[where S = "{blkG, blkA, blkB, blkC, blkD}"])
  fix h x assume "lookup ex_extern ex_chain_broken h = Some x"
  then show "x \<in> {blkG, blkA, blkB, blkC, blkD}"
    by (rule ex_known_blocks) (simp add: ex_chain_broken_def ex_chain_def)
next
  fix x assume "tailBlock ex_chain_broken = Some x"
  then show "x \<in> {blkG, blkA, blkB, blkC, blkD}" by (simp add: ex_chain_broken_def ex_chain_def)
next
  show "\<forall>x\<in>{blkG, blkA, blkB, blkC, blkD}.
          \<forall>p. lookup ex_extern ex_chain_broken (parentHash x) = Some p \<longrightarrow> height p < height x"
    by (simp add: ex_lookup_broken)
qed

lemma ex_chain_broken_no_ancestor:
  "\<nexists>a a'. reaches (lookup ex_extern ex_chain_broken) blkD a
      \<and> reaches (lookup ex_extern ex_chain_broken) blkB a' \<and> hash a' = hash a"
proof
  assume "\<exists>a a'. reaches (lookup ex_extern ex_chain_broken) blkD a
      \<and> reaches (lookup ex_extern ex_chain_broken) blkB a' \<and> hash a' = hash a"
  then obtain a a' where 1: "reaches (lookup ex_extern ex_chain_broken) blkD a"
    and 2: "reaches (lookup ex_extern ex_chain_broken) blkB a'" and 3: "hash a' = hash a"
    by blast
  have "a \<in> {blkD, blkC, blkG}"
    by (rule reaches_closed[OF 1]) (auto simp: ex_lookup_broken)
  moreover have "a' \<in> {blkB}"
    by (rule reaches_closed[OF 2]) (auto simp: ex_lookup_broken)
  ultimately show False using 3 by (auto simp: ex_blocks)
qed

text \<open>
  C6. On a chain whose heights go down along every resolved parent link, the
  common-ancestor search of a block that resolves in the chain (by its own hash, or else by
  its parent hash) terminates. It never reports that the block cannot be located. Either it
  panics, on the nil block a missing parent leaves in the first two loops or on the check
  of the third loop, or it returns a block that is reached from the resolved block along
  parent links and has the hash of a block reached from the tail; when no such block
  exists it panics.
\<close>

theorem FindCommonAncestorWithTail_terminates:
  assumes desc: "heights_descend E bc"
      and tail: "tailBlock bc = Some t"
      and res: "lookup E bc (hash b) = Some g
                \<or> (lookup E bc (hash b) = None \<and> lookup E bc (parentHash b) = Some g)"
  shows "\<exists>r. FindCommonAncestorWithTail E bc (Some b) = Some r
           \<and> (case r of
                 Panics f \<Rightarrow> f = NilDereference \<or> f = ParentMissing
               | Returns (Inl e, bc') \<Rightarrow> False
               | Returns (Inr a, bc') \<Rightarrow>
                   reaches (lookup E bc) g a
                   \<and> (\<exists>a'. reaches (lookup E bc) t a' \<and> hash a' = hash a))
           \<and> ((\<nexists>a a'. reaches (lookup E bc) g a \<and> reaches (lookup E bc) t a'
                          \<and> hash a' = hash a)
                \<longrightarrow> (\<exists>f. r = Panics f))"
proof -
  let ?look = "lookup E bc"
  let ?good = "\<lambda>r. (case r of
                 Panics f \<Rightarrow> f = NilDereference \<or> f = ParentMissing
               | Returns (Inl e, bc') \<Rightarrow> False
               | Returns (Inr a, bc') \<Rightarrow>
                   reaches ?look g a \<and> (\<exists>a'. reaches ?look t a' \<and> hash a' = hash a))"
  have Dt: "height p < height x" if "reaches ?look t x" "?look (parentHash x) = Some p" for x p
    using heights_descend_from[OF desc _ that] tail by simp
  have kg: "\<exists>h. ?look h = Some g" using res by auto
  have Dg: "height p < height x" if "reaches ?look g x" "?look (parentHash x) = Some p" for x p
    using heights_descend_from[OF desc _ that] kg by simp
  obtain bc1 where g1: "GetBlock E bc (hash b) = (?look (hash b), bc1)"
    and r1: "recency_only bc bc1" by (rule GetBlock_lookup[OF refl])
  obtain bc2 where g2: "GetBlock E bc1 (parentHash b) = (lookup E bc1 (parentHash b), bc2)"
    and r2: "recency_only bc1 bc2" by (rule GetBlock_lookup[OF refl])
  have look1: "lookup E bc1 = ?look" by (rule recency_only_lookup[OF r1])
  define bcs where "bcs = (if ?look (hash b) = None then bc2 else bc1)"
  have rs: "recency_only bc bcs"
    using r1 recency_only_trans[OF r1 r2] by (simp add: bcs_def)
  have sel: "(if ?look (hash b) = None then GetBlock E bc1 (parentHash b)
              else (?look (hash b), bc1)) = (Some g, bcs)"
    using res g2 look1 by (auto simp: bcs_def)
  have ts: "tailBlock bcs = Some t"
    using recency_only_fields(1)[OF rs] tail by simp
  have unfold: "FindCommonAncestorWithTail E bc (Some b) =
      (case walk_tail E bcs (Some t) g of
         None \<Rightarrow> None
       | Some (Panics f) \<Rightarrow> Some (Panics f)
       | Some (Returns (tail1, bc3)) \<Rightarrow>
           (case walk_target E bc3 (Some g) tail1 of
              None \<Rightarrow> None
            | Some (Panics f) \<Rightarrow> Some (Panics f)
            | Some (Returns (target1, bc4)) \<Rightarrow>
                (case walk_both E bc4 tail1 target1 of
                   None \<Rightarrow> None
                 | Some (Panics f) \<Rightarrow> Some (Panics f)
                 | Some (Returns (a, bc5)) \<Rightarrow> Some (Returns (Inr a, bc5)))))"
    by (simp add: FindCommonAncestorWithTail_def g1 sel ts)
  from walk_tail_total[of E bc t, OF Dt reaches.here rs, of g]
  obtain w1 where w1: "walk_tail E bcs (Some t) g = Some w1"
    and p1: "case w1 of Panics f \<Rightarrow> f = NilDereference
             | Returns (y, bc') \<Rightarrow> reaches ?look t y \<and> recency_only bc bc'
                 \<and> \<not> height g < height y"
    by blast
  have "\<exists>r. FindCommonAncestorWithTail E bc (Some b) = Some r \<and> ?good r"
  proof (cases w1)
    case (Panics f)
    with w1 p1 unfold show ?thesis by simp
  next
    case (Returns yb)
    obtain tail1 bc3 where yb: "yb = (tail1, bc3)" by (cases yb)
    with Returns p1 have rt: "reaches ?look t tail1" and r3: "recency_only bc bc3" by simp_all
    from walk_target_total[of E bc g, OF Dg reaches.here r3, of tail1]
    obtain w2 where w2: "walk_target E bc3 (Some g) tail1 = Some w2"
      and p2: "case w2 of Panics f \<Rightarrow> f = NilDereference
               | Returns (y, bc') \<Rightarrow> reaches ?look g y \<and> recency_only bc bc'
                   \<and> \<not> height tail1 < height y"
      by blast
    show ?thesis
    proof (cases w2)
      case (Panics f)
      with w1 w2 p2 unfold Returns yb show ?thesis by simp
    next
      case (Returns zb)
      obtain target1 bc4 where zb: "zb = (target1, bc4)" by (cases zb)
      with Returns p2 have rg: "reaches ?look g target1" and r4: "recency_only bc bc4"
        by simp_all
      from walk_both_total[of E bc t, OF Dt rt rg r4]
      obtain w3 where w3: "walk_both E bc4 tail1 target1 = Some w3"
        and p3: "case w3 of Panics f \<Rightarrow> f = ParentMissing
                 | Returns (a, bc') \<Rightarrow> reaches ?look g a
                     \<and> (\<exists>a'. reaches ?look t a' \<and> hash a' = hash a)
                     \<and> recency_only bc bc'"
        by blast
      show ?thesis
      proof (cases w3)
        case (Panics f)
        with w1 w2 w3 p3 unfold \<open>w1 = Returns yb\<close> yb Returns zb show ?thesis by simp
      next
        case (Returns ab)
        obtain a bc5 where ab: "ab = (a, bc5)" by (cases ab)
        with w1 w2 w3 p3 unfold \<open>w1 = Returns yb\<close> yb \<open>w2 = Returns zb\<close> zb Returns
        show ?thesis by simp
      qed
    qed
  qed
  then obtain r where r: "FindCommonAncestorWithTail E bc (Some b) = Some r" and g: "?good r"
    by blast
  have "(\<nexists>a a'. reaches ?look g a \<and> reaches ?look t a' \<and> hash a' = hash a)
          \<longrightarrow> (\<exists>f. r = Panics f)"
  proof (cases r)
    case (Panics f)
    then show ?thesis by simp
  next
    case (Returns ab)
    obtain e bc' where ab: "ab = (e, bc')" by (cases ab)
    show ?thesis
    proof (cases e)
      case (Inl err)
      with g Returns ab show ?thesis by simp
    next
      case (Inr a)
      with g Returns ab have "reaches ?look g a"
        "\<exists>a'. reaches ?look t a' \<and> hash a' = hash a" by simp_all
      then show ?thesis by blast
    qed
  qed
  with r g show ?thesis by blast
qed

theorem FindCommonAncestorWithTail_terminates_witness:
  "heights_descend ex_extern ex_chain
   \<and> tailBlock ex_chain = Some blkB
   \<and> lookup ex_extern ex_chain (hash blkD) = Some blkD
   \<and> (\<exists>bc'. FindCommonAncestorWithTail ex_extern ex_chain (Some blkD)
              = Some (Returns (Inr blkG, bc')))
   \<and> reaches (lookup ex_extern ex_chain) blkD blkG
   \<and> heights_descend ex_extern ex_chain_broken
   \<and> tailBlock ex_chain_broken = Some blkB
   \<and> lookup ex_extern ex_chain_broken (hash blkD) = Some blkD
   \<and> (\<exists>f. FindCommonAncestorWithTail ex_extern ex_chain_broken (Some blkD) = Some (Panics f))"
proof -
  have t: "tailBlock ex_chain = Some blkB" by (simp add: ex_chain_def)
  have r: "lookup ex_extern ex_chain (hash blkD) = Some blkD" by (simp add: ex_lookup)
  have tb: "tailBlock ex_chain = Some (hd ([blkB, blkA] @ [blkG]))" using t by simp
  have rd: "lookup ex_extern ex_chain (hash blkD) = Some (hd ([blkD, blkC] @ [blkG]))"
    using r by simp
  have l1: "linked (lookup ex_extern ex_chain) ([blkB, blkA] @ [blkG])"
    and l2: "linked (lookup ex_extern ex_chain) ([blkD, blkC] @ [blkG])"
    by (simp_all add: ex_lookup)
  have c1: "consecutive ([blkB, blkA] @ [blkG])" and c2: "consecutive ([blkD, blkC] @ [blkG])"
    and dj: "\<forall>x\<in>set [blkB, blkA]. \<forall>y\<in>set [blkD, blkC]. hash x \<noteq> hash y"
    by (simp_all add: ex_blocks)
  from FindCommonAncestorWithTail_fork[OF tb rd l1 l2 c1 c2 dj]
  obtain bc' where f: "FindCommonAncestorWithTail ex_extern ex_chain (Some blkD)
                         = Some (Returns (Inr blkG, bc'))" by blast
  from FindCommonAncestorWithTail_terminates
         [OF ex_chain_descends t, of blkD blkD] r f
  have 1: "reaches (lookup ex_extern ex_chain) blkD blkG" by auto
  have t': "tailBlock ex_chain_broken = Some blkB"
    by (simp add: ex_chain_broken_def ex_chain_def)
  have r': "lookup ex_extern ex_chain_broken (hash blkD) = Some blkD"
    by (simp add: ex_lookup_broken)
  from FindCommonAncestorWithTail_terminates
         [OF ex_chain_broken_descends t', of blkD blkD] r' ex_chain_broken_no_ancestor
  have 2: "\<exists>f. FindCommonAncestorWithTail ex_extern ex_chain_broken (Some blkD) = Some (Panics f)"
    by auto
  from ex_chain_descends t r f 1 ex_chain_broken_descends t' r' 2 show ?thesis by blast
qed


subsection \<open>The window of descendants\<close>

lemma ring_back_one:
  fixes n :: int
  assumes "0 < n"
  shows "((x mod n) + n - 1) mod n = (x - 1) mod n"
proof -
  have "((x mod n) + n - 1) mod n = ((x mod n) + (n - 1)) mod n" by (simp add: algebra_simps)
  also have "\<dots> = (x + (n - 1)) mod n" by (simp add: mod_add_left_eq)
  also have "\<dots> = ((x - 1) + n) mod n" by (simp add: algebra_simps)
  also have "\<dots> = (x - 1) mod n" by simp
  finally show ?thesis .
qed

lemma ring_other_slot:
  fixes n :: int
  assumes "0 < j" "j < n"
  shows "(a - j) mod n \<noteq> a mod n"
proof
  assume "(a - j) mod n = a mod n"
  then have "n dvd (a - j) - a" by (simp add: mod_eq_dvd_iff)
  then have "n dvd j" by simp
  with assms show False by (simp add: zdvd_not_zless)
qed

lemma ring_inv_start: "0 \<le> n \<Longrightarrow> ring_inv n [] (- 1) (replicate (nat n) None)"
  by (auto simp: ring_inv_def intro!: nth_replicate nat_less_iff[THEN iffD2]
      pos_mod_bound pos_mod_sign)

lemma ring_inv_push:
  assumes n: "0 < n" and inv: "ring_inv n ws curIdx queue"
  shows "ring_inv n (v # ws) ((curIdx + 1) mod n) (queue[nat ((curIdx + 1) mod n) := Some v])"
proof -
  let ?i = "(curIdx + 1) mod n"
  let ?q = "queue[nat ?i := Some v]"
  from inv have len: "length queue = nat n"
    and slots: "\<And>j. 0 \<le> j \<Longrightarrow> j < n \<Longrightarrow>
        queue ! nat ((curIdx - j) mod n) = (if nat j < length ws then Some (ws ! nat j) else None)"
    by (simp_all add: ring_inv_def)
  have i: "0 \<le> ?i" "?i < n" using n by simp_all
  have "?q ! nat ((?i - j) mod n) = (if nat j < length (v # ws) then Some ((v # ws) ! nat j) else None)"
    if j: "0 \<le> j" "j < n" for j
  proof (cases "j = 0")
    case True
    with i len show ?thesis by simp
  next
    case False
    with j have j1: "0 \<le> j - 1" "j - 1 < n" "0 < j" by simp_all
    have e: "(?i - j) mod n = (curIdx - (j - 1)) mod n"
      by (simp add: mod_diff_left_eq algebra_simps)
    have "(?i - j) mod n \<noteq> ?i mod n" using j1(3) j(2) by (rule ring_other_slot)
    then have "(?i - j) mod n \<noteq> ?i" using i by simp
    moreover have "0 \<le> (?i - j) mod n" using n by simp
    ultimately have "nat ((?i - j) mod n) \<noteq> nat ?i" using i by (simp add: eq_nat_nat_iff)
    then have "?q ! nat ((?i - j) mod n) = queue ! nat ((curIdx - (j - 1)) mod n)"
      by (simp add: e)
    also have "\<dots> = (if nat (j - 1) < length ws then Some (ws ! nat (j - 1)) else None)"
      using slots[OF j1(1,2)] .
    also have "\<dots> = (if nat j < length (v # ws) then Some ((v # ws) ! nat j) else None)"
    proof -
      from j1(3) have "nat j = Suc (nat (j - 1))" by simp
      then show ?thesis by simp
    qed
    finally show ?thesis .
  qed
  with i len show ?thesis by (simp add: ring_inv_def)
qed

lemma ring_fill_inv:
  assumes "0 < n" and "ring_inv n ws curIdx queue"
  shows "ring_inv n (rev vs @ ws) (fst (ring_fill n vs curIdx queue))
           (snd (ring_fill n vs curIdx queue))"
  using assms(2)
proof (induction vs arbitrary: ws curIdx queue)
  case Nil
  then show ?case by simp
next
  case (Cons v vs)
  from Cons.IH[OF ring_inv_push[OF assms(1) Cons.prems, of v]] show ?case by simp
qed

lemma collect_ring:
  assumes n: "0 < n" and inv: "ring_inv n ws curIdx queue" and "i \<le> nat n"
  shows "collect n queue i ((curIdx - (n - int i)) mod n) res
           = res @ drop (nat n - i) (take (nat n) ws)"
  using assms(3)
proof (induction i arbitrary: res)
  case 0
  then show ?case by simp
next
  case (Suc i)
  let ?j = "n - int (Suc i)"
  let ?c = "(curIdx - ?j) mod n"
  from Suc.prems have j: "0 \<le> ?j" "?j < n" by simp_all
  have nj: "nat ?j = nat n - Suc i" using Suc.prems by simp
  from inv j have slot: "queue ! nat ?c = (if nat ?j < length ws then Some (ws ! nat ?j) else None)"
    by (simp add: ring_inv_def)
  have c: "0 \<le> ?c" using n by simp
  have next_c: "(?c + n - 1) mod n = (curIdx - (n - int i)) mod n"
    using ring_back_one[OF n, of "curIdx - ?j"] by (simp add: algebra_simps)
  have step: "collect n queue (Suc i) ?c res
        = collect n queue i ((curIdx - (n - int i)) mod n)
            (case queue ! nat ?c of None \<Rightarrow> res | Some b \<Rightarrow> res @ [b])"
    using c next_c by simp
  have i': "i \<le> nat n" using Suc.prems by simp
  have d: "nat n - i = Suc (nat n - Suc i)" using Suc.prems by simp
  show ?case
  proof (cases "nat ?j < length ws")
    case True
    with nj Suc.prems have lt: "nat n - Suc i < length (take (nat n) ws)" by simp
    have "collect n queue (Suc i) ?c res
            = (res @ [ws ! (nat n - Suc i)]) @ drop (nat n - i) (take (nat n) ws)"
      using step slot True Suc.IH[OF i'] nj by simp
    also have "\<dots> = res @ drop (nat n - Suc i) (take (nat n) ws)"
      using Cons_nth_drop_Suc[OF lt] lt by (simp add: d)
    finally show ?thesis .
  next
    case False
    then have "drop (nat n - Suc i) (take (nat n) ws) = []" "drop (nat n - i) (take (nat n) ws) = []"
      using nj by simp_all
    then show ?thesis using step slot False Suc.IH[OF i'] by simp
  qed
qed

lemma collect_all:
  assumes "0 \<le> n" and "ring_inv n ws curIdx queue"
  shows "collect n queue (nat n) curIdx [] = take (nat n) ws"
proof (cases "n = 0")
  case True
  then show ?thesis by simp
next
  case False
  with assms(1) have n: "0 < n" by simp
  show ?thesis
  proof (cases "0 \<le> curIdx")
    case True
    from assms(2) have "curIdx < n" by (simp add: ring_inv_def)
    with True have "curIdx mod n = curIdx" by simp
    with collect_ring[OF n assms(2), of "nat n" "[]"] n show ?thesis by simp
  next
    case False
    with assms(2) have "ws = []" by (auto simp: ring_inv_def)
    moreover from n obtain k where "nat n = Suc k" by (cases "nat n") auto
    ultimately show ?thesis using False by simp
  qed
qed

lemma fetch_walk_path:
  assumes "linked (lookup E bc) (vs @ [b'])" and "hash b' = hash b"
      and "\<forall>v\<in>set vs. hash v \<noteq> hash b \<and> hash v \<noteq> GenesisHash E"
      and "n \<noteq> 0 \<or> vs = []"
  shows "\<exists>bc'. fetch_walk E bc n (Some b) (Some (hd (vs @ [b']))) curIdx queue
                  = Some (Returns (Inr (ring_fill n vs curIdx queue), bc'))
           \<and> recency_only bc bc'"
  using assms(1,3,4)
proof (induction vs arbitrary: bc curIdx queue)
  case Nil
  then show ?case using assms(2) by (subst fetch_walk.simps) simp
next
  case (Cons v vs)
  from Cons.prems(1) have p: "lookup E bc (parentHash v) = Some (hd (vs @ [b']))"
    and l: "linked (lookup E bc) (vs @ [b'])"
    by (simp_all add: linked_Cons)
  from p obtain bc1 where g: "GetBlock E bc (parentHash v) = (Some (hd (vs @ [b'])), bc1)"
    and r1: "recency_only bc bc1" by (rule GetBlock_lookup)
  from l have l1: "linked (lookup E bc1) (vs @ [b'])"
    by (simp add: recency_only_lookup[OF r1])
  from Cons.prems(3) have n: "n \<noteq> 0" by simp
  from Cons.IH[OF l1, of "(curIdx + 1) mod n" "queue[nat ((curIdx + 1) mod n) := Some v]"]
    Cons.prems(2) n
  obtain bc' where w: "fetch_walk E bc1 n (Some b) (Some (hd (vs @ [b']))) ((curIdx + 1) mod n)
                         (queue[nat ((curIdx + 1) mod n) := Some v])
                       = Some (Returns (Inr (ring_fill n (v # vs) curIdx queue), bc'))"
    and r2: "recency_only bc1 bc'" by auto
  from Cons.prems(2) have nb: "hash v \<noteq> hash b" and ng: "\<not> CheckGenesisBlock E (Some v)"
    by (simp_all add: CheckGenesisBlock_def)
  have "fetch_walk E bc n (Some b) (Some (hd ((v # vs) @ [b']))) curIdx queue
          = Some (Returns (Inr (ring_fill n (v # vs) curIdx queue), bc'))"
    by (subst fetch_walk.simps) (simp add: nb ng n g w del: ring_fill.simps)
  with recency_only_trans[OF r1 r2] show ?case by blast
qed

lemma FetchDescendant_path:
  assumes tail: "tailBlock bc = Some (hd (vs @ [b']))"
      and "linked (lookup E bc) (vs @ [b'])" and "hash b' = hash b"
      and "\<forall>v\<in>set vs. hash v \<noteq> hash b \<and> hash v \<noteq> GenesisHash E"
      and n: "0 < sint n \<or> (n = 0 \<and> vs = [])"
      and fits: "\<not> makeslice_panics E (sint n)"
  shows "\<exists>bc'. FetchDescendantInCanonicalChain E bc n (Some b)
                  = Some (Returns (Inr (take (nat (sint n)) (rev vs)), bc'))
           \<and> recency_only bc bc'"
proof -
  let ?n = "sint n"
  let ?q = "replicate (nat ?n) None :: Block option list"
  from n have n0: "0 \<le> ?n" and nv: "?n \<noteq> 0 \<or> vs = []" by auto
  from fetch_walk_path[OF assms(2,3,4) nv, of "- 1" ?q]
  obtain bc' where w: "fetch_walk E bc ?n (Some b) (Some (hd (vs @ [b']))) (- 1) ?q
                         = Some (Returns (Inr (ring_fill ?n vs (- 1) ?q), bc'))"
    and r: "recency_only bc bc'" by blast
  obtain i q where rf: "ring_fill ?n vs (- 1) ?q = (i, q)" by (cases "ring_fill ?n vs (- 1) ?q")
  have inv: "ring_inv ?n (rev vs) i q"
  proof (cases "?n = 0")
    case True
    with nv have "vs = []" by simp
    with rf ring_inv_start[OF n0] show ?thesis by auto
  next
    case False
    with n0 have "0 < ?n" by simp
    from ring_fill_inv[OF this ring_inv_start[OF n0], of vs] rf show ?thesis by simp
  qed
  have "FetchDescendantInCanonicalChain E bc n (Some b)
          = Some (Returns (Inr (collect ?n q (nat ?n) i []), bc'))"
    using fits by (simp add: FetchDescendantInCanonicalChain_def tail w rf)
  with collect_all[OF n0 inv] r show ?thesis by auto
qed

lemma FetchDescendant_no_slot:
  assumes "tailBlock bc = Some v" and "hash v \<noteq> hash b" and "hash v \<noteq> GenesisHash E"
  shows "FetchDescendantInCanonicalChain E bc 0 (Some b) = Some (Panics DivideByZero)"
  using assms
  by (simp add: FetchDescendantInCanonicalChain_def makeslice_panics_def fetch_walk.simps
      CheckGenesisBlock_def)

lemma ex_window:
  "\<not> makeslice_panics ex_extern (sint (1 :: 64 word))"
  "\<not> makeslice_panics ex_extern (sint (5 :: 64 word))"
  "makeslice_panics ex_extern (sint (4611686018427387904 :: 64 word))"
  by (simp_all add: makeslice_panics_def ex_extern_def)

lemma consecutive_below:
  "consecutive (x # xs) \<Longrightarrow> \<forall>y\<in>set xs. height y < height x"
proof (induction xs arbitrary: x)
  case Nil
  then show ?case by simp
next
  case (Cons z zs)
  from Cons.prems have 1: "height z < height x" and 2: "consecutive (z # zs)"
    unfolding consecutive.simps by blast+
  from Cons.IH[OF 2] 1 show ?case by auto
qed

lemma consecutive_sorted:
  "consecutive xs \<Longrightarrow> sorted_wrt (\<lambda>x y. height y < height x) xs"
proof (induction xs)
  case Nil
  then show ?case by simp
next
  case (Cons x xs)
  from Cons.prems have "consecutive xs"
    using consecutive_append_right[of "[x]" xs] by simp
  with Cons.IH consecutive_below[OF Cons.prems] show ?case by simp
qed

lemma window_ascending:
  assumes "consecutive vs"
  shows "sorted_wrt (\<lambda>x y. height x < height y) (take k (rev vs))"
proof -
  from consecutive_sorted[OF assms]
  have "sorted_wrt (\<lambda>x y. height x < height y) (rev vs)"
    by (simp add: sorted_wrt_rev)
  then show ?thesis by (rule sorted_wrt_take)
qed

text \<open>
  C2, as the code has it. Let \<open>vs\<close> be the blocks of the canonical chain from the tail
  down to the child of \<open>b\<close>, the tail first, with parent links that resolve down to a block
  with the hash of \<open>b\<close>; none of them has the hash of \<open>b\<close> or of the genesis block. A
  window whose slice \<^verbatim>\<open>make\<close> does not allocate ends in the panic of \<^verbatim>\<open>makeslice\<close>.
  For a window \<open>n \<ge> 1\<close> that is allocated, \<^verbatim>\<open>FetchDescendantInCanonicalChain\<close> returns
  the first \<open>n\<close> blocks of \<open>vs\<close> read from the side of \<open>b\<close>: exactly \<open>n\<close> blocks, those
  closest to \<open>b\<close>, when \<open>vs\<close> has more than \<open>n\<close>, and all of them otherwise; in both
  cases from the child of \<open>b\<close> upwards, which is by ascending height when the heights
  along \<open>vs\<close> go up by one. For the window \<open>n = 0\<close> it returns the empty list when \<open>b\<close>
  is the tail, and panics on the division by zero when it is not.
\<close>

theorem FetchDescendant_window:
  assumes "tailBlock bc = Some (hd (vs @ [b']))"
      and "linked (lookup E bc) (vs @ [b'])"
      and "hash b' = hash b"
      and "\<forall>v\<in>set vs. hash v \<noteq> hash b \<and> hash v \<noteq> GenesisHash E"
  shows "(makeslice_panics E (sint n) \<longrightarrow>
            FetchDescendantInCanonicalChain E bc n (Some b) = Some (Panics MakeSliceLen))
       \<and> (0 < sint n \<and> \<not> makeslice_panics E (sint n) \<longrightarrow>
            (\<exists>bc'. FetchDescendantInCanonicalChain E bc n (Some b)
                     = Some (Returns (Inr (take (nat (sint n)) (rev vs)), bc'))))
       \<and> (n = 0 \<and> vs = [] \<longrightarrow>
            (\<exists>bc'. FetchDescendantInCanonicalChain E bc n (Some b)
                     = Some (Returns (Inr [], bc'))))
       \<and> (n = 0 \<and> vs \<noteq> [] \<longrightarrow>
            FetchDescendantInCanonicalChain E bc n (Some b) = Some (Panics DivideByZero))
       \<and> (nat (sint n) < length vs \<longrightarrow>
            length (take (nat (sint n)) (rev vs)) = nat (sint n)
            \<and> take (nat (sint n)) (rev vs) = rev (drop (length vs - nat (sint n)) vs))
       \<and> (length vs \<le> nat (sint n) \<longrightarrow> take (nat (sint n)) (rev vs) = rev vs)
       \<and> (consecutive vs \<longrightarrow>
            sorted_wrt (\<lambda>x y. height x < height y) (take (nat (sint n)) (rev vs)))"
proof -
  let ?k = "nat (sint n)"
  have 1: "makeslice_panics E (sint n) \<longrightarrow>
            FetchDescendantInCanonicalChain E bc n (Some b) = Some (Panics MakeSliceLen)"
    by (simp add: FetchDescendantInCanonicalChain_def)
  have 2: "0 < sint n \<and> \<not> makeslice_panics E (sint n) \<longrightarrow>
            (\<exists>bc'. FetchDescendantInCanonicalChain E bc n (Some b)
                     = Some (Returns (Inr (take ?k (rev vs)), bc')))"
  proof
    assume a: "0 < sint n \<and> \<not> makeslice_panics E (sint n)"
    then have "0 < sint n \<or> (n = 0 \<and> vs = [])" and "\<not> makeslice_panics E (sint n)"
      by simp_all
    from FetchDescendant_path[OF assms this]
    show "\<exists>bc'. FetchDescendantInCanonicalChain E bc n (Some b)
                     = Some (Returns (Inr (take ?k (rev vs)), bc'))"
      by blast
  qed
  have 3: "n = 0 \<and> vs = [] \<longrightarrow>
            (\<exists>bc'. FetchDescendantInCanonicalChain E bc n (Some b)
                     = Some (Returns (Inr [], bc')))"
  proof
    assume a: "n = 0 \<and> vs = []"
    then have "0 < sint n \<or> (n = 0 \<and> vs = [])" by simp
    moreover from a have "\<not> makeslice_panics E (sint n)"
      by (simp add: makeslice_panics_def)
    ultimately show "\<exists>bc'. FetchDescendantInCanonicalChain E bc n (Some b)
                     = Some (Returns (Inr [], bc'))"
      using FetchDescendant_path[OF assms, of n] a by auto
  qed
  have 4: "n = 0 \<and> vs \<noteq> [] \<longrightarrow>
            FetchDescendantInCanonicalChain E bc n (Some b) = Some (Panics DivideByZero)"
  proof
    assume a: "n = 0 \<and> vs \<noteq> []"
    then obtain v ws where vs: "vs = v # ws" by (cases vs) auto
    with assms(1,4) have "tailBlock bc = Some v" "hash v \<noteq> hash b" "hash v \<noteq> GenesisHash E"
      by simp_all
    from FetchDescendant_no_slot[OF this] a
    show "FetchDescendantInCanonicalChain E bc n (Some b) = Some (Panics DivideByZero)"
      by simp
  qed
  have 5: "take ?k (rev vs) = rev (drop (length vs - ?k) vs)"
    by (simp add: take_rev)
  have 6: "?k < length vs \<longrightarrow> length (take ?k (rev vs)) = ?k"
    by simp
  have 7: "length vs \<le> ?k \<longrightarrow> take ?k (rev vs) = rev vs"
    by simp
  have 8: "consecutive vs \<longrightarrow>
            sorted_wrt (\<lambda>x y. height x < height y) (take ?k (rev vs))"
    using window_ascending[of vs ?k] by blast
  from 1 2 3 4 5 6 7 8 show ?thesis by blast
qed

theorem FetchDescendant_window_witness:
  "tailBlock ex_chain = Some blkB
   \<and> linked (lookup ex_extern ex_chain) [blkB, blkA, blkG]
   \<and> consecutive [blkB, blkA]
   \<and> (\<exists>bc'. FetchDescendantInCanonicalChain ex_extern ex_chain 1 (Some blkG)
              = Some (Returns (Inr [blkA], bc')))
   \<and> (\<exists>bc'. FetchDescendantInCanonicalChain ex_extern ex_chain 5 (Some blkG)
              = Some (Returns (Inr [blkA, blkB], bc')))
   \<and> sorted_wrt (\<lambda>x y. height x < height y) [blkA, blkB]
   \<and> FetchDescendantInCanonicalChain ex_extern ex_chain 4611686018427387904 (Some blkG)
       = Some (Panics MakeSliceLen)
   \<and> FetchDescendantInCanonicalChain ex_extern ex_chain 0 (Some blkG)
       = Some (Panics DivideByZero)
   \<and> (\<exists>bc'. FetchDescendantInCanonicalChain ex_extern ex_chain 0 (Some blkB)
              = Some (Returns (Inr [], bc')))"
proof -
  have t: "tailBlock ex_chain = Some (hd ([blkB, blkA] @ [blkG]))" by (simp add: ex_chain_def)
  have l: "linked (lookup ex_extern ex_chain) ([blkB, blkA] @ [blkG])" by (simp add: ex_lookup)
  have h: "hash blkG = hash blkG" by simp
  have d: "\<forall>v\<in>set [blkB, blkA]. hash v \<noteq> hash blkG \<and> hash v \<noteq> GenesisHash ex_extern"
    by (simp add: ex_blocks ex_extern_def)
  have c: "consecutive [blkB, blkA]" by (simp add: ex_blocks)
  have t0: "tailBlock ex_chain = Some (hd ([] @ [blkB]))" by (simp add: ex_chain_def)
  have l0: "linked (lookup ex_extern ex_chain) ([] @ [blkB])" by simp
  have d0: "\<forall>v\<in>set []. hash v \<noteq> hash blkB \<and> hash v \<noteq> GenesisHash ex_extern" by simp
  have 1: "\<exists>bc'. FetchDescendantInCanonicalChain ex_extern ex_chain 1 (Some blkG)
              = Some (Returns (Inr [blkA], bc'))"
    using FetchDescendant_window [OF t l h d, of 1] ex_window(1) by simp
  have 5: "\<exists>bc'. FetchDescendantInCanonicalChain ex_extern ex_chain 5 (Some blkG)
              = Some (Returns (Inr [blkA, blkB], bc'))"
    using FetchDescendant_window [OF t l h d, of 5] ex_window(2) by simp
  have 6: "FetchDescendantInCanonicalChain ex_extern ex_chain 4611686018427387904 (Some blkG)
             = Some (Panics MakeSliceLen)"
    using FetchDescendant_window [OF t l h d, of 4611686018427387904] ex_window(3) by blast
  have 7: "FetchDescendantInCanonicalChain ex_extern ex_chain 0 (Some blkG)
             = Some (Panics DivideByZero)"
    using FetchDescendant_window [OF t l h d, of 0] by simp
  have 8: "\<exists>bc'. FetchDescendantInCanonicalChain ex_extern ex_chain 0 (Some blkB)
              = Some (Returns (Inr [], bc'))"
    using FetchDescendant_window [OF t0 l0 refl d0, of 0] by simp
  have s: "sorted_wrt (\<lambda>x y. height x < height y) [blkA, blkB]"
    by (simp add: ex_blocks)
  have "tailBlock ex_chain = Some blkB" using t by simp
  moreover have "linked (lookup ex_extern ex_chain) [blkB, blkA, blkG]"
    by (simp add: ex_lookup)
  ultimately show ?thesis using c 1 5 6 7 8 s by blast
qed

text \<open>
  C2 as stated fails for a window of no slots: with the tail \<open>b2\<close> one block above \<open>a1\<close>
  the call with \<^verbatim>\<open>n = 0\<close> does not return the empty list, it panics.
\<close>

theorem FetchDescendant_window_zero:
  "tailBlock ex_chain = Some blkB
   \<and> lookup ex_extern ex_chain (parentHash blkB) = Some blkA
   \<and> FetchDescendantInCanonicalChain ex_extern ex_chain 0 (Some blkA) = Some (Panics DivideByZero)"
  by (simp add: FetchDescendantInCanonicalChain_def makeslice_panics_def fetch_walk.simps
      CheckGenesisBlock_def ex_lookup)

subsection \<open>The invariant of the detached tips\<close>

lemma fetch_walk_frame:
  assumes "fetch_walk E bc n b cur i q = Some r"
  shows "case r of Panics f \<Rightarrow> True | Returns (y, bc') \<Rightarrow> recency_only bc bc'"
proof (rule fetch_walk.raw_induct
    [where P = "\<lambda>E bc n b cur i q r. case r of Panics f \<Rightarrow> True | Returns (y, bc') \<Rightarrow> recency_only bc bc'",
      OF _ assms])
  fix fw E bc n block curBlock curIdx queue r
  assume IH: "\<And>E bc n b cur i q r. fw E bc n b cur i q = Some r \<Longrightarrow>
                (case r of Panics f \<Rightarrow> True | Returns (y, bc') \<Rightarrow> recency_only bc bc')"
    and body: "(case curBlock of
        None \<Rightarrow> Some (Returns (Inr (curIdx, queue), bc))
      | Some cur \<Rightarrow>
          (case block of
             None \<Rightarrow> Some (Panics NilDereference)
           | Some b \<Rightarrow>
               if hash cur = hash b then Some (Returns (Inr (curIdx, queue), bc))
               else if CheckGenesisBlock E curBlock
               then Some (Returns (Inl ErrNotInCanonicalChain, bc))
               else if n = 0 then Some (Panics DivideByZero)
               else (case GetBlock E bc (parentHash cur) of
                       (curBlock', bc') \<Rightarrow>
                         fw E bc' n block curBlock' ((curIdx + 1) mod n)
                           (queue[nat ((curIdx + 1) mod n) := curBlock])))) = Some r"
  show "case r of Panics f \<Rightarrow> True | Returns (y, bc') \<Rightarrow> recency_only bc bc'"
  proof (cases "\<exists>cur b. curBlock = Some cur \<and> block = Some b \<and> hash cur \<noteq> hash b
                  \<and> \<not> CheckGenesisBlock E curBlock \<and> n \<noteq> 0")
    case False
    with body show ?thesis
      by (auto split: option.splits if_splits)
  next
    case True
    then obtain cur b where c: "curBlock = Some cur" "block = Some b" "hash cur \<noteq> hash b"
      "\<not> CheckGenesisBlock E (Some cur)" "n \<noteq> 0" by auto
    obtain c' bc1 where g: "GetBlock E bc (parentHash cur) = (c', bc1)"
      by (cases "GetBlock E bc (parentHash cur)")
    have r1: "recency_only bc bc1" using GetBlock_recency[of bc E "parentHash cur"] g by simp
    from body c g have "fw E bc1 n (Some b) c' ((curIdx + 1) mod n)
                          (queue[nat ((curIdx + 1) mod n) := Some cur]) = Some r" by simp
    from IH[OF this] r1 show ?thesis
      by (cases r) (auto intro: recency_only_trans)
  qed
qed

lemma FetchDescendant_frame:
  assumes "FetchDescendantInCanonicalChain E bc n b = Some (Returns (r, bc'))"
  shows "recency_only bc bc'"
proof -
  from assms obtain w where
    w: "fetch_walk E bc (sint n) b (tailBlock bc) (- 1) (replicate (nat (sint n)) None)
          = Some (Returns (w, bc'))"
    by (auto simp: FetchDescendantInCanonicalChain_def
        split: if_splits option.splits exec.splits prod.splits sum.splits)
  from fetch_walk_frame[OF w] show ?thesis by simp
qed

lemma lru_Get_keys: "fst ` set (entries (snd (lru_Get c k))) = fst ` set (entries c)"
  using lru_Get_map_of[of c k]
  by (metis dom_map_of_conv_image_fst)

lemma detached_collect_keys:
  "fst ` set (entries (snd (detached_collect c ks ret))) = fst ` set (entries c)"
proof (induction ks arbitrary: c ret)
  case Nil
  then show ?case by simp
next
  case (Cons k ks)
  obtain v c' where g: "lru_Get c k = (v, c')" by (cases "lru_Get c k")
  with lru_Get_keys[of c k] have "fst ` set (entries c') = fst ` set (entries c)" by simp
  with Cons.IH[of c'] g show ?case by (cases v) simp_all
qed

lemma DetachedTailBlocks_frame:
  "tailBlock (snd (DetachedTailBlocks bc)) = tailBlock bc"
  "fst ` set (entries (detachedTailBlocks (snd (DetachedTailBlocks bc))))
     = fst ` set (entries (detachedTailBlocks bc))"
  using detached_collect_keys[of "detachedTailBlocks bc" "lru_Keys (detachedTailBlocks bc)" "[]"]
  by (cases "detached_collect (detachedTailBlocks bc) (lru_Keys (detachedTailBlocks bc)) []";
      simp add: DetachedTailBlocks_def)+

lemma loadGenesis_detached [simp]:
  "detachedTailBlocks (snd (loadGenesisFromStorage E bc)) = detachedTailBlocks bc"
  by (simp add: loadGenesisFromStorage_def Let_def split: sum.splits)

lemma loadTail_detached [simp]:
  "detachedTailBlocks (snd (loadTailFromStorage E bc)) = detachedTailBlocks bc"
  using loadGenesis_detached[of E bc]
  by (cases "loadGenesisFromStorage E bc")
     (simp add: loadTailFromStorage_def storeTailToStorage_def split: sum.splits)

lemma NewBlockChain_detached:
  assumes "NewBlockChain E cid s m = Inr bc"
  shows "detachedTailBlocks bc = lru_New 64"
proof -
  let ?bc0 = "\<lparr>chainID = cid, genesisBlock = None, tailBlock = None, txPool = [],
                cachedBlocks = lru_New 1024, detachedTailBlocks = lru_New 64,
                storage = s, metrics = m\<rparr>"
  obtain g bc1 where lg: "loadGenesisFromStorage E ?bc0 = (g, bc1)"
    by (cases "loadGenesisFromStorage E ?bc0")
  obtain r bc2 where lt: "loadTailFromStorage E (bc1\<lparr>genesisBlock := Some g\<rparr>) = (r, bc2)"
    by (cases "loadTailFromStorage E (bc1\<lparr>genesisBlock := Some g\<rparr>)")
  have "detachedTailBlocks bc1 = lru_New 64"
    using loadGenesis_detached[of E ?bc0] lg by simp
  moreover have "detachedTailBlocks bc2 = detachedTailBlocks (bc1\<lparr>genesisBlock := Some g\<rparr>)"
    using loadTail_detached[of E "bc1\<lparr>genesisBlock := Some g\<rparr>"] lt by simp
  ultimately have "detachedTailBlocks bc2 = lru_New 64" by simp
  with assms lg lt show ?thesis
    by (cases r) (auto simp: NewBlockChain_def Let_def)
qed

text \<open>
  C8, as the code has it. \<^verbatim>\<open>NewBlockChain\<close> starts with no detached tip. When
  \<^verbatim>\<open>SetTailBlock\<close> returns, the new tail is the tail and is not among the detached tips.
  \<^verbatim>\<open>PutVerifiedNewBlocks\<close> keeps the current tail out of the detached tips when no block
  of its second list has the hash of the current tail; it does not check this itself.
  \<^verbatim>\<open>GetBlock\<close>, \<^verbatim>\<open>DetachedTailBlocks\<close>, \<^verbatim>\<open>FindCommonAncestorWithTail\<close> and
  \<^verbatim>\<open>FetchDescendantInCanonicalChain\<close> change neither the tail nor the set of detached
  tips.
\<close>

theorem tail_not_detached_maintained:
  "(NewBlockChain E cid s m = Inr bc0 \<longrightarrow> tail_not_detached bc0)
   \<and> (SetTailBlock E bc (Some nt) = Some (Returns bc1)
      \<longrightarrow> tailBlock bc1 = Some nt \<and> tail_not_detached bc1)
   \<and> (tail_not_detached bc \<and> (\<forall>t. tailBlock bc = Some t \<longrightarrow> hash t \<notin> hash ` set tips)
      \<longrightarrow> tail_not_detached (snd (PutVerifiedNewBlocks E bc blocks tips)))
   \<and> (tail_not_detached bc
      \<longrightarrow> tail_not_detached (snd (GetBlock E bc h))
          \<and> tail_not_detached (snd (DetachedTailBlocks bc)))
   \<and> (tail_not_detached bc \<and> FindCommonAncestorWithTail E bc b = Some (Returns (r, bc2))
      \<longrightarrow> tail_not_detached bc2)
   \<and> (tail_not_detached bc \<and> FetchDescendantInCanonicalChain E bc n b' = Some (Returns (w, bc3))
      \<longrightarrow> tail_not_detached bc3)"
proof (intro conjI impI)
  assume "NewBlockChain E cid s m = Inr bc0"
  from NewBlockChain_detached[OF this] show "tail_not_detached bc0"
    by (simp add: tail_not_detached_def lru_New_def split: option.splits)
next
  assume "SetTailBlock E bc (Some nt) = Some (Returns bc1)"
  from SetTailBlock_frame[OF this]
  show "tailBlock bc1 = Some nt" and "tail_not_detached bc1"
    by (simp_all add: tail_not_detached_def lru_Remove_keys)
next
  assume a: "tail_not_detached bc \<and> (\<forall>t. tailBlock bc = Some t \<longrightarrow> hash t \<notin> hash ` set tips)"
  obtain e bc' where p: "put_all_blocks E bc blocks = (e, bc')"
    by (cases "put_all_blocks E bc blocks")
  have f: "tailBlock bc' = tailBlock bc" "detachedTailBlocks bc' = detachedTailBlocks bc"
    using put_all_blocks_tail[of E bc blocks] put_all_blocks_detached[of E bc blocks] p
    by simp_all
  show "tail_not_detached (snd (PutVerifiedNewBlocks E bc blocks tips))"
  proof (cases "tailBlock bc")
    case None
    with f p show ?thesis
      by (cases e) (simp_all add: PutVerifiedNewBlocks_def tail_not_detached_def)
  next
    case (Some t)
    with a have 1: "Hex (hash t) \<notin> fst ` set (entries (detachedTailBlocks bc))"
      and 2: "hash t \<notin> hash ` set tips"
      by (simp_all add: tail_not_detached_def)
    from 2 have "Hex (hash t) \<notin> (\<lambda>v. Hex (hash v)) ` set tips"
      by (auto dest: Hex_inj)
    with 1 put_tail_blocks_keys[of bc' tips] f
    have "Hex (hash t) \<notin> fst ` set (entries (detachedTailBlocks (put_tail_blocks bc' tips)))"
      by auto
    with 1 Some f p show ?thesis
      by (cases e) (simp_all add: PutVerifiedNewBlocks_def tail_not_detached_def)
  qed
next
  assume "tail_not_detached bc"
  then show "tail_not_detached (snd (GetBlock E bc h))"
    using recency_only_fields(1,2)[OF GetBlock_recency[of bc E h]]
    by (simp add: tail_not_detached_def split: option.splits)
next
  assume "tail_not_detached bc"
  then show "tail_not_detached (snd (DetachedTailBlocks bc))"
    by (simp add: tail_not_detached_def DetachedTailBlocks_frame split: option.splits)
next
  assume a: "tail_not_detached bc \<and> FindCommonAncestorWithTail E bc b = Some (Returns (r, bc2))"
  then have "FindCommonAncestorWithTail E bc b = Some (Returns (r, bc2))" by simp
  then have "recency_only bc bc2" by (rule FindCommonAncestorWithTail_frame)
  from recency_only_fields(1,2)[OF this] a show "tail_not_detached bc2"
    by (simp add: tail_not_detached_def split: option.splits)
next
  assume a: "tail_not_detached bc
             \<and> FetchDescendantInCanonicalChain E bc n b' = Some (Returns (w, bc3))"
  then have "FetchDescendantInCanonicalChain E bc n b' = Some (Returns (w, bc3))" by simp
  then have "recency_only bc bc3" by (rule FetchDescendant_frame)
  from recency_only_fields(1,2)[OF this] a show "tail_not_detached bc3"
    by (simp add: tail_not_detached_def split: option.splits)
qed

theorem tail_not_detached_maintained_witness:
  "(\<exists>bc0. NewBlockChain ex_extern 100 (storage ex_blank) ex_metrics = Inr bc0
          \<and> tail_not_detached bc0)
   \<and> tail_not_detached ex_chain
   \<and> hash blkB \<notin> hash ` set [blkD]
   \<and> tail_not_detached (snd (PutVerifiedNewBlocks ex_extern ex_chain [blkC, blkD] [blkD]))
   \<and> tail_not_detached (snd (GetBlock ex_extern ex_chain (hash blkC)))
   \<and> tail_not_detached (snd (DetachedTailBlocks ex_chain))
   \<and> (\<exists>bc1. SetTailBlock ex_extern ex_chain (Some blkD) = Some (Returns bc1)
          \<and> tailBlock bc1 = Some blkD \<and> tail_not_detached bc1)
   \<and> (\<exists>bc2. FindCommonAncestorWithTail ex_extern ex_chain (Some blkD)
              = Some (Returns (Inr blkG, bc2))
          \<and> tail_not_detached bc2)
   \<and> (\<exists>bc3. FetchDescendantInCanonicalChain ex_extern ex_chain 1 (Some blkG)
              = Some (Returns (Inr [blkA], bc3))
          \<and> tail_not_detached bc3)"
proof -
  have i: "tail_not_detached ex_chain"
    by (simp add: tail_not_detached_def ex_chain_def ex_Hex ex_blocks)
  have t: "tailBlock ex_chain = Some blkB" by (simp add: ex_chain_def)
  have d: "hash blkB \<notin> hash ` set [blkD]" by (simp add: ex_blocks)
  with t have d': "\<forall>t. tailBlock ex_chain = Some t \<longrightarrow> hash t \<notin> hash ` set [blkD]" by simp
  have "\<exists>bc0. NewBlockChain ex_extern 100 (storage ex_blank) ex_metrics = Inr bc0"
    by (simp add: NewBlockChain_def loadTailFromStorage_def loadGenesisFromStorage_def
        storeTailToStorage_def storeBlockToStorage_def Put_def Let_def ex_blank_def ex_load
        ex_blocks)
  then obtain bc0 where nb: "NewBlockChain ex_extern 100 (storage ex_blank) ex_metrics = Inr bc0"
    by blast
  have n: "blkD = hd ([blkD, blkC] @ [blkG])" by simp
  from SetTailBlock_reorg
         [OF t n ex_chain_links(1) ex_chain_links(2) ex_chain_links(3) ex_branches]
  obtain bc1 where s: "SetTailBlock ex_extern ex_chain (Some blkD) = Some (Returns bc1)"
    by blast
  have tb: "tailBlock ex_chain = Some (hd ([blkB, blkA] @ [blkG]))" using t by simp
  have rd: "lookup ex_extern ex_chain (hash blkD) = Some (hd ([blkD, blkC] @ [blkG]))"
    by (simp add: ex_lookup)
  have l1: "linked (lookup ex_extern ex_chain) ([blkB, blkA] @ [blkG])"
    and l2: "linked (lookup ex_extern ex_chain) ([blkD, blkC] @ [blkG])"
    by (simp_all add: ex_lookup)
  have c1: "consecutive ([blkB, blkA] @ [blkG])" and c2: "consecutive ([blkD, blkC] @ [blkG])"
    and dj: "\<forall>x\<in>set [blkB, blkA]. \<forall>y\<in>set [blkD, blkC]. hash x \<noteq> hash y"
    by (simp_all add: ex_blocks)
  from FindCommonAncestorWithTail_fork[OF tb rd l1 l2 c1 c2 dj]
  obtain bc2 where f: "FindCommonAncestorWithTail ex_extern ex_chain (Some blkD)
                         = Some (Returns (Inr blkG, bc2))" by blast
  have dg: "\<forall>v\<in>set [blkB, blkA]. hash v \<noteq> hash blkG \<and> hash v \<noteq> GenesisHash ex_extern"
    by (simp add: ex_blocks ex_extern_def)
  have n1: "0 < sint (1 :: 64 word) \<or> ((1 :: 64 word) = 0 \<and> [blkB, blkA] = [])" by simp
  from FetchDescendant_path[OF tb l1 refl dg n1 ex_window(1)]
  obtain bc3 where w: "FetchDescendantInCanonicalChain ex_extern ex_chain 1 (Some blkG)
                         = Some (Returns (Inr [blkA], bc3))" by auto
  note th = tail_not_detached_maintained
              [of ex_extern 100 "storage ex_blank" ex_metrics bc0 ex_chain blkD bc1 "[blkD]"
                  "[blkC, blkD]" "hash blkC" "Some blkD" "Inr blkG" bc2 1 "Some blkG"
                  "Inr [blkA]" bc3]
  from th nb have 0: "tail_not_detached bc0" by blast
  from th s have 1: "tailBlock bc1 = Some blkD \<and> tail_not_detached bc1" by blast
  from th i d' have 2:
    "tail_not_detached (snd (PutVerifiedNewBlocks ex_extern ex_chain [blkC, blkD] [blkD]))"
    by blast
  from th i have 3: "tail_not_detached (snd (GetBlock ex_extern ex_chain (hash blkC)))"
    "tail_not_detached (snd (DetachedTailBlocks ex_chain))"
    by blast+
  from th i f have 4: "tail_not_detached bc2" by blast
  from th i w have 5: "tail_not_detached bc3" by blast
  from nb 0 i d 1 2 3 4 5 s f w show ?thesis by blast
qed

text \<open>
  C8 as stated fails: admitting the current tail \<open>b2\<close> in the list of detached tips puts
  it into the detached-tip cache while it is the tail.
\<close>

theorem PutVerifiedNewBlocks_detaches_current_tail:
  "tail_not_detached ex_chain
   \<and> tailBlock (snd (PutVerifiedNewBlocks ex_extern ex_chain [] [blkB])) = tailBlock ex_chain
   \<and> \<not> tail_not_detached (snd (PutVerifiedNewBlocks ex_extern ex_chain [] [blkB]))"
  by (simp add: PutVerifiedNewBlocks_def tail_not_detached_def lru_ContainsOrAdd_def
      ex_chain_def ex_Hex ex_blocks)

end
